theory Spec2Isabelle
  imports Main
begin

section \<open>OncePerWorker: data model\<close>

text \<open>
  The module \<^verbatim>\<open>once_per_worker.py\<close> defines one class, \<^verbatim>\<open>OncePerWorker\<close>, and one
  function, \<^verbatim>\<open>once_per_worker\<close>. The class keeps a class-level dictionary
  \<^verbatim>\<open>_instances\<close> (token to instance) guarded by \<^verbatim>\<open>_instances_lock\<close>; an instance has the
  four fields \<^verbatim>\<open>_func\<close>, \<^verbatim>\<open>_token\<close>, \<^verbatim>\<open>_lock\<close> and \<^verbatim>\<open>_value\<close>.

  Python objects have identity, and several properties are about identity, so instances live
  in an explicit store: a list of instance records, an object reference being an index into
  it. Allocation appends, nothing is ever freed.

  \<^item> A Python call either returns a value, raises, or never returns (it waits for a lock
    that is held, or the called function does not come back). These are the three
    constructors of \<open>outcome\<close>.
  \<^item> The value slot \<^verbatim>\<open>_value: Optional[T]\<close> is \<open>'v option\<close>: \<open>None\<close> is Python's
    \<^verbatim>\<open>None\<close>, \<open>Some v\<close> any other object. A factory is Python code and may return
    \<^verbatim>\<open>None\<close> whatever its annotation says, so its result type is \<open>'v option\<close> too.
  \<^item> A factory (\<^verbatim>\<open>_func\<close>) is a zero-argument callable. It acts on the part of the process
    outside this module, the \<open>world\<close> of type \<open>'w\<close> (a counter it increments, say), and it
    does not reach into \<^verbatim>\<open>OncePerWorker\<close> objects.
  \<^item> \<open>calls\<close> is instrumentation, not program state: the list of the instances whose
    factory has been invoked, in order. It is what "the factory is invoked" means below.
\<close>

datatype pyexn = AttributeError string | AssertionError | UserError string

datatype 'a outcome = Return 'a | Raise pyexn | Hang

type_synonym addr = nat

type_synonym ('w, 'v) factory = "'w \<Rightarrow> 'v option outcome \<times> 'w"

record ('w, 'v) handle =
  h_func :: "('w, 'v) factory"
  h_token :: string
  h_lock :: bool
  h_value :: "'v option"

record ('w, 'v) proc =
  instances :: "string \<rightharpoonup> addr"
  instances_lock :: bool
  heap :: "('w, 'v) handle list"
  world :: 'w
  calls :: "addr list"

text \<open>The process before the module has been used: the class attributes as the class
  statement creates them.\<close>

definition new_proc :: "'w \<Rightarrow> ('w, 'v) proc" where
  "new_proc w =
     \<lparr>instances = Map.empty, instances_lock = False, heap = [], world = w, calls = []\<rparr>"

definition invocations :: "addr \<Rightarrow> ('w, 'v) proc \<Rightarrow> nat" where
  "invocations a s = count_list (calls s) a"

section \<open>Operations\<close>

subsection \<open>Field assignment and the factory call\<close>

definition set_lock :: "addr \<Rightarrow> bool \<Rightarrow> ('w, 'v) proc \<Rightarrow> ('w, 'v) proc" where
  "set_lock a b s = s\<lparr>heap := (heap s)[a := (heap s ! a)\<lparr>h_lock := b\<rparr>]\<rparr>"

definition set_value :: "addr \<Rightarrow> 'v option \<Rightarrow> ('w, 'v) proc \<Rightarrow> ('w, 'v) proc" where
  "set_value a r s = s\<lparr>heap := (heap s)[a := (heap s ! a)\<lparr>h_value := r\<rparr>]\<rparr>"

text \<open>\<^verbatim>\<open>self._func()\<close>: the factory runs on the world; the invocation is logged.\<close>

definition call_func :: "addr \<Rightarrow> ('w, 'v) proc \<Rightarrow> 'v option outcome \<times> ('w, 'v) proc" where
  "call_func a s =
     (case h_func (heap s ! a) (world s) of
        (r, w') \<Rightarrow> (r, s\<lparr>world := w', calls := calls s @ [a]\<rparr>))"

subsection \<open>\<^verbatim>\<open>__init__\<close>\<close>

text \<open>
  \<^verbatim>\<open>
  def __init__(self, func, token):
      self._func = func
      self._token = token
      self._lock = threading.Lock()
      self._value = None
  \<close>
  Together with the allocation of the object by \<^verbatim>\<open>cls(func, token_)\<close>: the new object gets
  the next free reference.
\<close>

definition opw_init :: "('w, 'v) factory \<Rightarrow> string \<Rightarrow> ('w, 'v) proc \<Rightarrow> addr \<times> ('w, 'v) proc" where
  "opw_init func token s =
     (length (heap s),
      s\<lparr>heap := heap s @ [\<lparr>h_func = func, h_token = token, h_lock = False, h_value = None\<rparr>]\<rparr>)"

subsection \<open>\<^verbatim>\<open>instance_for_function\<close>\<close>

text \<open>
  \<^verbatim>\<open>token_ = token or dask.base.tokenize(func)\<close>

  \<^verbatim>\<open>token\<close> is \<^verbatim>\<open>Optional[str]\<close>. Python's \<^verbatim>\<open>or\<close> yields its left operand when that is
  truthy and otherwise evaluates and yields the right one; \<^verbatim>\<open>None\<close> and the empty string
  are the falsy values of \<^verbatim>\<open>Optional[str]\<close>. \<^verbatim>\<open>dask.base.tokenize\<close> is not part of this
  repository: it is the parameter \<open>tokenize\<close>, a function of the factory that returns a
  string or raises.
\<close>

definition token_or_tokenize ::
  "(('w, 'v) factory \<Rightarrow> string outcome) \<Rightarrow> ('w, 'v) factory \<Rightarrow> string option \<Rightarrow> string outcome" where
  "token_or_tokenize tokenize func token =
     (case token of
        None \<Rightarrow> tokenize func
      | Some t \<Rightarrow> if t = [] then tokenize func else Return t)"

text \<open>
  \<^verbatim>\<open>
  with cls._instances_lock:
      try:
          return cls._instances[token_]
      except KeyError:
          pass
      cls._instances[token_] = instance = cls(func, token_)
      return instance
  \<close>
  The lock is not reentrant: entering the \<^verbatim>\<open>with\<close> block while it is held never returns.
  Both ways out of the block release it.
\<close>

definition instance_for_function ::
  "(('w, 'v) factory \<Rightarrow> string outcome) \<Rightarrow> ('w, 'v) factory \<Rightarrow> string option \<Rightarrow>
     ('w, 'v) proc \<Rightarrow> addr outcome \<times> ('w, 'v) proc" where
  "instance_for_function tokenize func token s =
     (case token_or_tokenize tokenize func token of
        Raise e \<Rightarrow> (Raise e, s)
      | Hang \<Rightarrow> (Hang, s)
      | Return token_ \<Rightarrow>
          if instances_lock s then (Hang, s)
          else
            (let s1 = s\<lparr>instances_lock := True\<rparr> in
             case instances s1 token_ of
               Some a \<Rightarrow> (Return a, s1\<lparr>instances_lock := False\<rparr>)
             | None \<Rightarrow>
                 (case opw_init func token_ s1 of
                    (instance, s2) \<Rightarrow>
                      (let s3 = s2\<lparr>instances := (instances s2)(token_ \<mapsto> instance)\<rparr>
                       in (Return instance, s3\<lparr>instances_lock := False\<rparr>)))))"

subsection \<open>\<^verbatim>\<open>__reduce__\<close> and unpickling\<close>

text \<open>
  \<^verbatim>\<open>
  def __reduce__(self):
      return (self.instance_for_function, (self._func, self._token))
  \<close>
  The pickle of an instance is the pair of a callable and its arguments; the callable is
  always the class method, so the model keeps the arguments. Unpickling applies the
  callable to the arguments, in the process that unpickles.
\<close>

definition opw_reduce :: "('w, 'v) handle \<Rightarrow> ('w, 'v) factory \<times> string" where
  "opw_reduce self = (h_func self, h_token self)"

definition unpickle ::
  "(('w, 'v) factory \<Rightarrow> string outcome) \<Rightarrow> ('w, 'v) factory \<times> string \<Rightarrow>
     ('w, 'v) proc \<Rightarrow> addr outcome \<times> ('w, 'v) proc" where
  "unpickle tokenize p s = instance_for_function tokenize (fst p) (Some (snd p)) s"

subsection \<open>\<^verbatim>\<open>_get_value\<close>\<close>

text \<open>
  \<^verbatim>\<open>
  def _get_value(self):
      if self._value is not None:
          return self._value
      with self._lock:
          if self._value is None:
              self._value = self._func()
          assert self._value is not None
          return self._value
  \<close>
  \<^verbatim>\<open>threading.Lock\<close> is not reentrant: with the lock held, entering the block never
  returns. Leaving the block releases the lock, by \<^verbatim>\<open>return\<close> or by exception. A factory
  that never returns leaves the lock held. The \<^verbatim>\<open>assert\<close> is taken as executed (the
  interpreter's default mode).
\<close>

definition assert_and_return :: "addr \<Rightarrow> ('w, 'v) proc \<Rightarrow> 'v option outcome \<times> ('w, 'v) proc" where
  "assert_and_return a s =
     (case h_value (heap s ! a) of
        None \<Rightarrow> (Raise AssertionError, set_lock a False s)
      | Some v \<Rightarrow> (Return (h_value (heap s ! a)), set_lock a False s))"

definition get_value :: "addr \<Rightarrow> ('w, 'v) proc \<Rightarrow> 'v option outcome \<times> ('w, 'v) proc" where
  "get_value a s =
     (case h_value (heap s ! a) of
        Some v \<Rightarrow> (Return (h_value (heap s ! a)), s)
      | None \<Rightarrow>
          if h_lock (heap s ! a) then (Hang, s)
          else
            (let s1 = set_lock a True s in
             case h_value (heap s1 ! a) of
               None \<Rightarrow>
                 (case call_func a s1 of
                    (Return r, s2) \<Rightarrow> assert_and_return a (set_value a r s2)
                  | (Raise e, s2) \<Rightarrow> (Raise e, set_lock a False s2)
                  | (Hang, s2) \<Rightarrow> (Hang, s2))
             | Some v \<Rightarrow> assert_and_return a s1))"

text \<open>\<open>n\<close> calls of \<^verbatim>\<open>_get_value\<close> on the same instance, one after the other, by a caller
  that goes on after an exception: the outcomes in order, and the final state.\<close>

fun get_value_calls ::
  "nat \<Rightarrow> addr \<Rightarrow> ('w, 'v) proc \<Rightarrow> 'v option outcome list \<times> ('w, 'v) proc" where
  "get_value_calls 0 a s = ([], s)"
| "get_value_calls (Suc n) a s =
     (case get_value a s of
        (r, s') \<Rightarrow> (case get_value_calls n a s' of (rs, s'') \<Rightarrow> (r # rs, s'')))"

subsection \<open>\<^verbatim>\<open>__getattr__\<close>, \<^verbatim>\<open>__dir__\<close>, \<^verbatim>\<open>__repr__\<close>\<close>

text \<open>
  \<^verbatim>\<open>
  def __getattr__(self, attr):
      if attr in ("__dask_graph__", "__name__", "__dask_tokenize__"):
          raise AttributeError(attr)
      return getattr(self._get_value(), attr)
  \<close>
  The built-in \<^verbatim>\<open>getattr\<close> on the resolved value is the parameter \<open>py_getattr\<close>.
\<close>

definition reserved :: "string list" where
  "reserved = [''__dask_graph__'', ''__name__'', ''__dask_tokenize__'']"

definition opw_getattr ::
  "('v option \<Rightarrow> string \<Rightarrow> 'r outcome) \<Rightarrow> addr \<Rightarrow> string \<Rightarrow> ('w, 'v) proc \<Rightarrow>
     'r outcome \<times> ('w, 'v) proc" where
  "opw_getattr py_getattr a attr s =
     (if attr \<in> set reserved then (Raise (AttributeError attr), s)
      else
        (case get_value a s of
           (Return x, s') \<Rightarrow> (py_getattr x attr, s')
         | (Raise e, s') \<Rightarrow> (Raise e, s')
         | (Hang, s') \<Rightarrow> (Hang, s')))"

text \<open>
  \<^verbatim>\<open>
  def __dir__(self):
      return dir(self._value)
  \<close>
  The built-in \<^verbatim>\<open>dir\<close> of an object lists the names of its attributes. For \<^verbatim>\<open>None\<close> these
  are the attributes of \<^verbatim>\<open>NoneType\<close>, listed below as CPython 3.10 gives them (later
  versions add \<^verbatim>\<open>__getstate__\<close>); for any other value the list is the parameter
  \<open>dir_of\<close>.
\<close>

definition NoneType_dir :: "string list" where
  "NoneType_dir =
     [''__bool__'', ''__class__'', ''__delattr__'', ''__dir__'', ''__doc__'', ''__eq__'',
      ''__format__'', ''__ge__'', ''__getattribute__'', ''__gt__'', ''__hash__'',
      ''__init__'', ''__init_subclass__'', ''__le__'', ''__lt__'', ''__ne__'', ''__new__'',
      ''__reduce__'', ''__reduce_ex__'', ''__repr__'', ''__setattr__'', ''__sizeof__'',
      ''__str__'', ''__subclasshook__'']"

definition py_dir :: "('v \<Rightarrow> string list) \<Rightarrow> 'v option \<Rightarrow> string list" where
  "py_dir dir_of x = (case x of None \<Rightarrow> NoneType_dir | Some v \<Rightarrow> dir_of v)"

definition opw_dir ::
  "('v \<Rightarrow> string list) \<Rightarrow> addr \<Rightarrow> ('w, 'v) proc \<Rightarrow> string list outcome \<times> ('w, 'v) proc" where
  "opw_dir dir_of a s = (Return (py_dir dir_of (h_value (heap s ! a))), s)"

text \<open>
  \<^verbatim>\<open>
  def __repr__(self):
      return f"<{type(self).__name__} at {hex(id(self))} of {self._value!r}>"
  \<close>
  \<^verbatim>\<open>id\<close> is the object's reference; \<^verbatim>\<open>hex\<close> writes it in base 16 after \<^verbatim>\<open>0x\<close>. The
  \<^verbatim>\<open>repr\<close> of \<^verbatim>\<open>None\<close> is \<^verbatim>\<open>None\<close>; that of any other value is the parameter \<open>repr_of\<close>.
  The class name is that of \<^verbatim>\<open>OncePerWorker\<close> itself (the module defines no subclass).
\<close>

definition hex_digit :: "nat \<Rightarrow> char" where
  "hex_digit d = ''0123456789abcdef'' ! d"

function hex_digits :: "nat \<Rightarrow> string" where
  "hex_digits n = (if n < 16 then [hex_digit n] else hex_digits (n div 16) @ [hex_digit (n mod 16)])"
  by pat_completeness auto
termination
  by (relation "measure id") auto

definition py_hex :: "nat \<Rightarrow> string" where
  "py_hex n = ''0x'' @ hex_digits n"

definition py_repr :: "('v \<Rightarrow> string) \<Rightarrow> 'v option \<Rightarrow> string" where
  "py_repr repr_of x = (case x of None \<Rightarrow> ''None'' | Some v \<Rightarrow> repr_of v)"

definition opw_repr ::
  "('v \<Rightarrow> string) \<Rightarrow> addr \<Rightarrow> ('w, 'v) proc \<Rightarrow> string outcome \<times> ('w, 'v) proc" where
  "opw_repr repr_of a s =
     (Return (''<OncePerWorker at '' @ py_hex a @ '' of '' @
              py_repr repr_of (h_value (heap s ! a)) @ ''>''), s)"

section \<open>The process over time\<close>

text \<open>
  \<open>evolves tokenize s s'\<close>: the process gets from state \<open>s\<close> to state \<open>s'\<close> by calls of the
  module's operations and by code outside the module changing the world. The class
  docstring rules out constructing instances with \<^verbatim>\<open>__init__\<close> directly, so instances arise
  through \<^verbatim>\<open>instance_for_function\<close> only (unpickling and \<^verbatim>\<open>once_per_worker\<close> go through
  it). \<^verbatim>\<open>__getattr__\<close> changes the state as \<^verbatim>\<open>_get_value\<close> does or not at all;
  \<^verbatim>\<open>__dir__\<close> and \<^verbatim>\<open>__repr__\<close> do not change it. A state the process can be in is one
  with \<open>evolves tokenize (new_proc w) s\<close>.
\<close>

inductive evolves ::
  "(('w, 'v) factory \<Rightarrow> string outcome) \<Rightarrow> ('w, 'v) proc \<Rightarrow> ('w, 'v) proc \<Rightarrow> bool"
  for tokenize :: "('w, 'v) factory \<Rightarrow> string outcome" and s :: "('w, 'v) proc" where
  no_op: "evolves tokenize s s"
| by_instance_for_function:
    "evolves tokenize s s1 \<Longrightarrow>
     evolves tokenize s (snd (instance_for_function tokenize func token s1))"
| by_get_value:
    "evolves tokenize s s1 \<Longrightarrow> a < length (heap s1) \<Longrightarrow>
     evolves tokenize s (snd (get_value a s1))"
| by_world:
    "evolves tokenize s s1 \<Longrightarrow> evolves tokenize s (s1\<lparr>world := w\<rparr>)"

text \<open>The registry invariant: the registry lock is free between operations, every entry
  refers to an allocated instance, every instance is the entry of its own token, and an
  instance whose token is empty got it from \<open>tokenize\<close>.\<close>

definition registry_ok ::
  "(('w, 'v) factory \<Rightarrow> string outcome) \<Rightarrow> ('w, 'v) proc \<Rightarrow> bool" where
  "registry_ok tokenize s \<longleftrightarrow>
     \<not> instances_lock s \<and>
     (\<forall>t a. instances s t = Some a \<longrightarrow> a < length (heap s)) \<and>
     (\<forall>a<length (heap s).
        instances s (h_token (heap s ! a)) = Some a \<and>
        (h_token (heap s ! a) = [] \<longrightarrow> tokenize (h_func (heap s ! a)) = Return []))"

text \<open>\<open>extends s s'\<close>: \<open>s'\<close> has every registry entry and every instance of \<open>s\<close>, with the
  same factory and token.\<close>

definition extends :: "('w, 'v) proc \<Rightarrow> ('w, 'v) proc \<Rightarrow> bool" where
  "extends s s' \<longleftrightarrow>
     (\<forall>k a. instances s k = Some a \<longrightarrow> instances s' k = Some a) \<and>
     length (heap s) \<le> length (heap s') \<and>
     (\<forall>b<length (heap s).
        h_func (heap s' ! b) = h_func (heap s ! b) \<and>
        h_token (heap s' ! b) = h_token (heap s ! b))"

section \<open>Example factories and processes\<close>

text \<open>The world of the examples is a counter that every factory increments.
  \<open>counting_factory v\<close> returns the object \<open>v\<close>; \<open>none_factory\<close> returns \<^verbatim>\<open>None\<close>;
  \<open>flaky_factory\<close> raises on its first invocation and returns an object afterwards.\<close>

definition counting_factory :: "nat \<Rightarrow> (nat, nat) factory" where
  "counting_factory v = (\<lambda>c. (Return (Some v), Suc c))"

definition none_factory :: "(nat, nat) factory" where
  "none_factory = (\<lambda>c. (Return None, Suc c))"

definition flaky_factory :: "(nat, nat) factory" where
  "flaky_factory = (\<lambda>c. (if c = 0 then Raise (UserError ''boom'') else Return (Some 7), Suc c))"

definition const_tokenize :: "string \<Rightarrow> (nat, nat) factory \<Rightarrow> string outcome" where
  "const_tokenize t = (\<lambda>f. Return t)"

text \<open>\<open>fresh_proc f\<close>: a new process after \<^verbatim>\<open>OncePerWorker.instance_for_function(f)\<close>;
  \<open>warm_proc f\<close>: the same after one \<^verbatim>\<open>_get_value()\<close> on that instance.\<close>

definition fresh_proc :: "(nat, nat) factory \<Rightarrow> (nat, nat) proc" where
  "fresh_proc f = snd (instance_for_function (const_tokenize ''abc'') f None (new_proc 0))"

definition warm_proc :: "(nat, nat) factory \<Rightarrow> (nat, nat) proc" where
  "warm_proc f = snd (get_value 0 (fresh_proc f))"

definition no_attrs :: "nat option \<Rightarrow> string \<Rightarrow> nat outcome" where
  "no_attrs x attr = Raise (AttributeError attr)"

definition two_attrs :: "nat \<Rightarrow> string list" where
  "two_attrs v = [''predict'', ''weights'']"

definition show_nat :: "nat \<Rightarrow> string" where
  "show_nat v = ''obj''"

section \<open>Threads calling \<^verbatim>\<open>_get_value\<close>\<close>

text \<open>
  For calls from several threads \<^verbatim>\<open>_get_value\<close> is cut into its steps: each read or write
  of \<^verbatim>\<open>self._value\<close>, each lock operation and the factory call is one step, and the steps
  of different threads interleave in any order. A thread is at one of these points:

  \<^item> \<open>Test\<close>: before \<^verbatim>\<open>if self._value is not None\<close>;
  \<^item> \<open>FastRet\<close>: before the first \<^verbatim>\<open>return self._value\<close>;
  \<^item> \<open>Enter\<close>: before \<^verbatim>\<open>with self._lock\<close>; the step is possible only with the lock free;
  \<^item> \<open>Retest\<close>: in the block, before \<^verbatim>\<open>if self._value is None\<close>;
  \<^item> \<open>Call\<close>: before \<^verbatim>\<open>self._func()\<close>;
  \<^item> \<open>Store r\<close>: the factory has returned \<open>r\<close>, before the assignment to \<^verbatim>\<open>self._value\<close>;
  \<^item> \<open>Assert\<close>: before the \<^verbatim>\<open>assert\<close>;
  \<^item> \<open>Ret\<close>: before the second \<^verbatim>\<open>return self._value\<close>;
  \<^item> \<open>Exit r\<close>: leaving the block with outcome \<open>r\<close>, before the release of the lock;
  \<^item> \<open>Done r\<close>: the call is over with outcome \<open>r\<close>;
  \<^item> \<open>Stuck\<close>: in a factory that never returns.

  The body of the factory is one step. \<open>thread_step\<close> gives the next point and state of a
  thread, or \<open>None\<close> when the thread cannot move.
\<close>

datatype 'v pc =
    Test
  | FastRet
  | Enter
  | Retest
  | Call
  | Store "'v option"
  | Assert
  | Ret
  | Exit "'v option outcome"
  | Done "'v option outcome"
  | Stuck

fun thread_step :: "addr \<Rightarrow> 'v pc \<Rightarrow> ('w, 'v) proc \<Rightarrow> ('v pc \<times> ('w, 'v) proc) option" where
  "thread_step a Test s =
     Some (case h_value (heap s ! a) of Some v \<Rightarrow> FastRet | None \<Rightarrow> Enter, s)"
| "thread_step a FastRet s = Some (Done (Return (h_value (heap s ! a))), s)"
| "thread_step a Enter s =
     (if h_lock (heap s ! a) then None else Some (Retest, set_lock a True s))"
| "thread_step a Retest s =
     Some (case h_value (heap s ! a) of None \<Rightarrow> Call | Some v \<Rightarrow> Assert, s)"
| "thread_step a Call s =
     (case call_func a s of
        (Return r, s') \<Rightarrow> Some (Store r, s')
      | (Raise e, s') \<Rightarrow> Some (Exit (Raise e), s')
      | (Hang, s') \<Rightarrow> Some (Stuck, s'))"
| "thread_step a (Store r) s = Some (Assert, set_value a r s)"
| "thread_step a Assert s =
     Some (case h_value (heap s ! a) of
             None \<Rightarrow> Exit (Raise AssertionError)
           | Some v \<Rightarrow> Ret, s)"
| "thread_step a Ret s = Some (Exit (Return (h_value (heap s ! a))), s)"
| "thread_step a (Exit r) s = Some (Done r, set_lock a False s)"
| "thread_step a (Done r) s = None"
| "thread_step a Stuck s = None"

text \<open>A thread alone, for at most \<open>n\<close> steps; and what it means that this agrees with the
  outcome and state of \<open>get_value\<close>.\<close>

fun run_thread :: "nat \<Rightarrow> addr \<Rightarrow> 'v pc \<Rightarrow> ('w, 'v) proc \<Rightarrow> 'v pc \<times> ('w, 'v) proc" where
  "run_thread 0 a pc s = (pc, s)"
| "run_thread (Suc n) a pc s =
     (case thread_step a pc s of
        None \<Rightarrow> (pc, s)
      | Some (pc', s') \<Rightarrow> run_thread n a pc' s')"

definition agrees ::
  "'v option outcome \<times> ('w, 'v) proc \<Rightarrow> 'v pc \<times> ('w, 'v) proc \<Rightarrow> bool" where
  "agrees seq thr \<longleftrightarrow>
     snd thr = snd seq \<and>
     (case fst seq of
        Return x \<Rightarrow> fst thr = Done (Return x)
      | Raise e \<Rightarrow> fst thr = Done (Raise e)
      | Hang \<Rightarrow> fst thr = Enter \<or> fst thr = Stuck)"

text \<open>The threads together: a configuration is the process state and the point of every
  thread, all of them calling \<^verbatim>\<open>_get_value\<close> on the instance \<open>a\<close>. One step of the system
  is one step of one thread; \<open>run a k c c'\<close> is a sequence of \<open>k\<close> steps from \<open>c\<close> to \<open>c'\<close>;
  a configuration is terminal when no thread can move. \<open>exec\<close> runs a schedule, the list
  of the threads that move, in order.\<close>

inductive sys_step ::
  "addr \<Rightarrow> ('w, 'v) proc \<times> 'v pc list \<Rightarrow> ('w, 'v) proc \<times> 'v pc list \<Rightarrow> bool"
  for a :: addr where
  thread: "i < length pcs \<Longrightarrow> thread_step a (pcs ! i) s = Some (pc', s') \<Longrightarrow>
           sys_step a (s, pcs) (s', pcs[i := pc'])"

inductive run ::
  "addr \<Rightarrow> nat \<Rightarrow> ('w, 'v) proc \<times> 'v pc list \<Rightarrow> ('w, 'v) proc \<times> 'v pc list \<Rightarrow> bool"
  for a :: addr where
  run_0: "run a 0 c c"
| run_Suc: "run a k c c1 \<Longrightarrow> sys_step a c1 c2 \<Longrightarrow> run a (Suc k) c c2"

definition terminal :: "addr \<Rightarrow> ('w, 'v) proc \<times> 'v pc list \<Rightarrow> bool" where
  "terminal a c \<longleftrightarrow> (\<forall>pc \<in> set (snd c). thread_step a pc (fst c) = None)"

fun exec ::
  "addr \<Rightarrow> nat list \<Rightarrow> ('w, 'v) proc \<times> 'v pc list \<Rightarrow> (('w, 'v) proc \<times> 'v pc list) option" where
  "exec a [] c = Some c"
| "exec a (i # sched) c =
     (if i < length (snd c) then
        (case thread_step a (snd c ! i) (fst c) of
           None \<Rightarrow> None
         | Some (pc', s') \<Rightarrow> exec a sched (s', (snd c)[i := pc']))
      else None)"

text \<open>The number of steps a thread has left at most, and the sum over the threads.\<close>

fun rank :: "'v pc \<Rightarrow> nat" where
  "rank Test = 8"
| "rank Enter = 7"
| "rank Retest = 6"
| "rank Call = 5"
| "rank (Store r) = 4"
| "rank Assert = 3"
| "rank Ret = 2"
| "rank FastRet = 1"
| "rank (Exit r) = 1"
| "rank (Done r) = 0"
| "rank Stuck = 0"

definition remaining :: "'v pc list \<Rightarrow> nat" where
  "remaining pcs = sum_list (map rank pcs)"

text \<open>The invariant of the threads, for a factory that increments the counter and returns
  the object \<open>v\<close>, from a state with counter \<open>w0\<close> and \<open>k0\<close> invocations so far. A thread
  holds the lock from \<open>Retest\<close> to \<open>Exit\<close>; at most one does, and the lock is held exactly
  then. The counter and the invocations are at their initial values or one above; they are
  one above exactly when the slot is populated or the holder is about to store. \<open>pc_ok\<close>
  is what a thread at each point may assume about the slot and the counter.\<close>

fun holding :: "'v pc \<Rightarrow> bool" where
  "holding Retest = True"
| "holding Call = True"
| "holding (Store r) = True"
| "holding Assert = True"
| "holding Ret = True"
| "holding (Exit r) = True"
| "holding pc = False"

fun storing :: "'v pc \<Rightarrow> bool" where
  "storing (Store r) = True"
| "storing pc = False"

definition holders :: "'v pc list \<Rightarrow> nat set" where
  "holders pcs = {j. j < length pcs \<and> holding (pcs ! j)}"

fun pc_ok :: "nat \<Rightarrow> nat option \<Rightarrow> bool \<Rightarrow> nat pc \<Rightarrow> bool" where
  "pc_ok v val called Test = True"
| "pc_ok v val called Enter = True"
| "pc_ok v val called Retest = True"
| "pc_ok v val called FastRet = (val = Some v)"
| "pc_ok v val called Call = (val = None \<and> \<not> called)"
| "pc_ok v val called (Store r) = (r = Some v \<and> val = None \<and> called)"
| "pc_ok v val called Assert = (val = Some v)"
| "pc_ok v val called Ret = (val = Some v)"
| "pc_ok v val called (Exit r) = (r = Return (Some v) \<and> val = Some v)"
| "pc_ok v val called (Done r) = (r = Return (Some v) \<and> val = Some v)"
| "pc_ok v val called Stuck = False"

definition sys_inv ::
  "addr \<Rightarrow> nat \<Rightarrow> nat \<Rightarrow> nat \<Rightarrow> (nat, nat) proc \<times> nat pc list \<Rightarrow> bool" where
  "sys_inv a v w0 k0 c \<longleftrightarrow>
     (case c of (s, pcs) \<Rightarrow>
        a < length (heap s) \<and>
        h_func (heap s ! a) = counting_factory v \<and>
        (world s = w0 \<and> invocations a s = k0 \<or>
         world s = Suc w0 \<and> invocations a s = Suc k0) \<and>
        (case h_value (heap s ! a) of
           Some x \<Rightarrow> x = v \<and> world s = Suc w0
         | None \<Rightarrow> world s = Suc w0 \<longrightarrow> (\<exists>j<length pcs. storing (pcs ! j))) \<and>
        (if h_lock (heap s ! a) then \<exists>j. holders pcs = {j} else holders pcs = {}) \<and>
        (\<forall>j<length pcs. pc_ok v (h_value (heap s ! a)) (world s = Suc w0) (pcs ! j)))"

text \<open>A schedule of two threads: both test the empty slot, the first then runs to its end,
  the second after it.\<close>

definition two_thread_schedule :: "nat list" where
  "two_thread_schedule = [0, 1, 0, 0, 0, 0, 0, 0, 0, 1, 1, 1, 1, 1]"

text \<open>The same for a factory whose result is \<^verbatim>\<open>None\<close>: a thread is then through after
  seven steps, since it leaves the block from the \<^verbatim>\<open>assert\<close>.\<close>

definition none_schedule :: "nat list" where
  "none_schedule = [0, 1, 0, 0, 0, 0, 0, 0, 1, 1, 1, 1, 1, 1]"

section \<open>Basic facts\<close>

lemma set_lock_simps [simp]:
  "length (heap (set_lock a b s)) = length (heap s)"
  "instances (set_lock a b s) = instances s"
  "instances_lock (set_lock a b s) = instances_lock s"
  "world (set_lock a b s) = world s"
  "calls (set_lock a b s) = calls s"
  by (simp_all add: set_lock_def)

lemma set_value_simps [simp]:
  "length (heap (set_value a r s)) = length (heap s)"
  "instances (set_value a r s) = instances s"
  "instances_lock (set_value a r s) = instances_lock s"
  "world (set_value a r s) = world s"
  "calls (set_value a r s) = calls s"
  by (simp_all add: set_value_def)

lemma nth_update_field:
  assumes "b < length xs" and "\<And>h. f (g h) = f h"
  shows "f (xs[a := g (xs ! a)] ! b) = f (xs ! b)"
  using assms by (cases "a = b") simp_all

lemma set_lock_nth [simp]:
  "b < length (heap s) \<Longrightarrow> h_token (heap (set_lock a l s) ! b) = h_token (heap s ! b)"
  "b < length (heap s) \<Longrightarrow> h_func (heap (set_lock a l s) ! b) = h_func (heap s ! b)"
  "b < length (heap s) \<Longrightarrow> h_value (heap (set_lock a l s) ! b) = h_value (heap s ! b)"
  by (simp_all add: set_lock_def nth_update_field)

lemma set_value_nth [simp]:
  "b < length (heap s) \<Longrightarrow> h_token (heap (set_value a r s) ! b) = h_token (heap s ! b)"
  "b < length (heap s) \<Longrightarrow> h_func (heap (set_value a r s) ! b) = h_func (heap s ! b)"
  "b < length (heap s) \<Longrightarrow> h_lock (heap (set_value a r s) ! b) = h_lock (heap s ! b)"
  by (simp_all add: set_value_def nth_update_field)

lemma handle_unlock_value:
  "\<not> h_lock h \<Longrightarrow> h\<lparr>h_value := x, h_lock := False\<rparr> = h\<lparr>h_value := x\<rparr>"
  by (cases h) simp

lemma proc_unlock_id: "\<not> instances_lock s \<Longrightarrow> s\<lparr>instances_lock := False\<rparr> = s"
  by (cases s) simp

lemma call_func_eq:
  "call_func a s =
     (fst (h_func (heap s ! a) (world s)),
      s\<lparr>world := snd (h_func (heap s ! a) (world s)), calls := calls s @ [a]\<rparr>)"
  by (simp add: call_func_def split_beta)

subsection \<open>What one call of \<^verbatim>\<open>_get_value\<close> does\<close>

lemma get_value_populated:
  "h_value (heap s ! a) = Some v \<Longrightarrow> get_value a s = (Return (Some v), s)"
  by (simp add: get_value_def)

lemma get_value_raises:
  assumes "a < length (heap s)" "h_value (heap s ! a) = None" "\<not> h_lock (heap s ! a)"
    and "h_func (heap s ! a) (world s) = (Raise e, w1)"
  shows "get_value a s = (Raise e, s\<lparr>world := w1, calls := calls s @ [a]\<rparr>)"
  using assms
  by (simp add: get_value_def call_func_def set_lock_def list_update_same_conv)

lemma get_value_returns:
  assumes "a < length (heap s)" "h_value (heap s ! a) = None" "\<not> h_lock (heap s ! a)"
    and "h_func (heap s ! a) (world s) = (Return (Some v), w1)"
  shows "get_value a s =
     (Return (Some v), s\<lparr>heap := (heap s)[a := (heap s ! a)\<lparr>h_value := Some v\<rparr>],
                         world := w1, calls := calls s @ [a]\<rparr>)"
  using assms
  by (simp add: get_value_def call_func_def set_lock_def set_value_def assert_and_return_def
        handle_unlock_value)

lemma get_value_frame:
  "instances (snd (get_value a s)) = instances s \<and>
   instances_lock (snd (get_value a s)) = instances_lock s \<and>
   length (heap (snd (get_value a s))) = length (heap s) \<and>
   (\<forall>b. b < length (heap s) \<longrightarrow>
      h_token (heap (snd (get_value a s)) ! b) = h_token (heap s ! b) \<and>
      h_func (heap (snd (get_value a s)) ! b) = h_func (heap s ! b))"
  by (simp add: get_value_def call_func_eq assert_and_return_def Let_def
        split: option.splits outcome.splits)

lemma get_value_calls_populated:
  "h_value (heap s ! a) = Some x \<Longrightarrow> get_value_calls n a s = (replicate n (Return (Some x)), s)"
  by (induction n) (simp_all add: get_value_populated)

lemma get_value_calls_first:
  assumes "a < length (heap s)" "h_value (heap s ! a) = None" "\<not> h_lock (heap s ! a)"
    and "h_func (heap s ! a) (world s) = (Return (Some v), w1)"
  shows "get_value_calls (Suc n) a s =
     (replicate (Suc n) (Return (Some v)),
      s\<lparr>heap := (heap s)[a := (heap s ! a)\<lparr>h_value := Some v\<rparr>],
         world := w1, calls := calls s @ [a]\<rparr>)"
  using assms by (simp add: get_value_returns get_value_calls_populated)

subsection \<open>The example processes\<close>

lemma fresh_proc_eq:
  "fresh_proc f =
     \<lparr>instances = [''abc'' \<mapsto> 0], instances_lock = False,
      heap = [\<lparr>h_func = f, h_token = ''abc'', h_lock = False, h_value = None\<rparr>],
      world = 0, calls = []\<rparr>"
  by (simp add: fresh_proc_def instance_for_function_def token_or_tokenize_def
        const_tokenize_def new_proc_def opw_init_def)

lemma warm_proc_eq:
  "warm_proc (counting_factory v) =
     \<lparr>instances = [''abc'' \<mapsto> 0], instances_lock = False,
      heap = [\<lparr>h_func = counting_factory v, h_token = ''abc'', h_lock = False,
               h_value = Some v\<rparr>],
      world = 1, calls = [0]\<rparr>"
  by (simp add: warm_proc_def fresh_proc_eq get_value_def call_func_def set_lock_def
        set_value_def assert_and_return_def counting_factory_def)

lemma evolves_fresh_proc:
  "evolves (const_tokenize ''abc'') (new_proc 0) (fresh_proc f)"
  unfolding fresh_proc_def by (intro evolves.by_instance_for_function evolves.no_op)

lemma evolves_warm_proc:
  "evolves (const_tokenize ''abc'') (fresh_proc f) (warm_proc f)"
  unfolding warm_proc_def
  by (intro evolves.by_get_value evolves.no_op) (simp add: fresh_proc_eq)

subsection \<open>The registry invariant holds throughout\<close>

lemma registry_ok_new_proc: "registry_ok tokenize (new_proc w)"
  by (simp add: registry_ok_def new_proc_def)

lemma token_or_tokenize_empty:
  "token_or_tokenize tokenize func token = Return [] \<Longrightarrow> tokenize func = Return []"
  by (auto simp add: token_or_tokenize_def split: option.splits if_splits)

lemma registry_ok_instance_for_function:
  assumes "registry_ok tokenize s"
  shows "registry_ok tokenize (snd (instance_for_function tokenize func token s))"
proof (cases "token_or_tokenize tokenize func token")
  case (Return k)
  show ?thesis
  proof (cases "instances s k")
    case None
    have fresh: "h_token (heap s ! a) \<noteq> k" if "a < length (heap s)" for a
      using assms that None by (auto simp add: registry_ok_def)
    have emp: "k = [] \<Longrightarrow> tokenize func = Return []"
      using Return token_or_tokenize_empty by blast
    show ?thesis
      using assms Return None fresh emp
      by (auto simp add: registry_ok_def instance_for_function_def opw_init_def Let_def
            nth_append less_Suc_eq)
  next
    case (Some a)
    then show ?thesis
      using assms Return
      by (simp add: registry_ok_def instance_for_function_def Let_def)
  qed
qed (use assms in \<open>simp_all add: instance_for_function_def\<close>)

lemma registry_ok_get_value:
  assumes "registry_ok tokenize s"
  shows "registry_ok tokenize (snd (get_value a s))"
  using assms get_value_frame [of a s] by (simp add: registry_ok_def)

lemma evolves_registry_ok:
  "evolves tokenize s s' \<Longrightarrow> registry_ok tokenize s \<Longrightarrow> registry_ok tokenize s'"
proof (induction rule: evolves.induct)
  case no_op
  then show ?case .
next
  case (by_instance_for_function s1 func token)
  then show ?case by (simp add: registry_ok_instance_for_function)
next
  case (by_get_value s1 a)
  then show ?case by (simp add: registry_ok_get_value)
next
  case (by_world s1 w)
  then show ?case by (simp add: registry_ok_def)
qed

lemma extends_refl: "extends s s"
  by (simp add: extends_def)

lemma extends_trans: "extends s s1 \<Longrightarrow> extends s1 s2 \<Longrightarrow> extends s s2"
  by (auto simp add: extends_def)

lemma extends_instance_for_function:
  "extends s (snd (instance_for_function tokenize func token s))"
  by (auto simp add: extends_def instance_for_function_def opw_init_def Let_def nth_append
        split: outcome.splits option.splits)

lemma extends_get_value: "extends s (snd (get_value a s))"
  using get_value_frame [of a s] by (simp add: extends_def)

lemma evolves_extends: "evolves tokenize s s' \<Longrightarrow> extends s s'"
proof (induction rule: evolves.induct)
  case no_op
  show ?case by (rule extends_refl)
next
  case (by_instance_for_function s1 func token)
  then show ?case using extends_instance_for_function extends_trans by blast
next
  case (by_get_value s1 a)
  then show ?case using extends_get_value extends_trans by blast
next
  case (by_world s1 w)
  then show ?case by (simp add: extends_def)
qed

lemma instance_for_function_present:
  assumes "token_or_tokenize tokenize func token = Return k"
    and "\<not> instances_lock s" and "instances s k = Some a"
  shows "instance_for_function tokenize func token s = (Return a, s)"
  using assms by (simp add: instance_for_function_def Let_def proc_unlock_id)

lemma instance_for_function_key:
  assumes "token_or_tokenize tokenize func token = Return k" "\<not> instances_lock s"
  shows "\<exists>a. fst (instance_for_function tokenize func token s) = Return a \<and>
             instances (snd (instance_for_function tokenize func token s)) k = Some a \<and>
             (\<forall>k'. k' \<noteq> k \<longrightarrow>
                instances (snd (instance_for_function tokenize func token s)) k' = instances s k')"
  using assms
  by (auto simp add: instance_for_function_def opw_init_def Let_def split: option.splits)

subsection \<open>Threads: one thread alone is \<^verbatim>\<open>_get_value\<close>\<close>

lemma thread_step_rank: "thread_step a pc s = Some (pc', s') \<Longrightarrow> rank pc' < rank pc"
  by (cases pc) (auto split: option.splits if_splits prod.splits outcome.splits)

lemma sys_step_remaining:
  assumes "sys_step a c c'"
  shows "remaining (snd c') < remaining (snd c)"
  using assms
proof cases
  case (thread i pcs s pc' s')
  have r: "rank pc' < rank (pcs ! i)"
    using thread(4) by (rule thread_step_rank)
  have "sum_list ((map rank pcs)[i := rank pc']) = sum_list (map rank pcs) + rank pc' - map rank pcs ! i"
    using thread(3) by (simp add: sum_list_update)
  moreover have "rank (pcs ! i) \<le> sum_list (map rank pcs)"
    using thread(3) by (simp add: member_le_sum_list)
  ultimately show ?thesis
    using r thread(1-3) by (simp add: remaining_def map_update)
qed

lemma set_lock_nth_lock [simp]:
  "a < length (heap s) \<Longrightarrow> h_lock (heap (set_lock a b s) ! a) = b"
  by (simp add: set_lock_def)

lemma set_value_nth_value [simp]:
  "a < length (heap s) \<Longrightarrow> h_value (heap (set_value a r s) ! a) = r"
  by (simp add: set_value_def)

lemma run_thread_get_value:
  assumes "a < length (heap s)"
  shows "agrees (get_value a s) (run_thread 9 a Test s)"
proof (cases "h_value (heap s ! a)")
  case (Some v)
  then show ?thesis
    by (simp add: agrees_def get_value_def eval_nat_numeral)
next
  case None
  show ?thesis
  proof (cases "h_lock (heap s ! a)")
    case True
    with None show ?thesis
      by (simp add: agrees_def get_value_def eval_nat_numeral)
  next
    case False
    show ?thesis
    proof (cases "fst (h_func (heap s ! a) (world s))")
      case (Return r)
      with None False assms show ?thesis
        by (cases r)
           (simp_all add: agrees_def get_value_def call_func_eq assert_and_return_def
              eval_nat_numeral)
    next
      case (Raise e)
      with None False assms show ?thesis
        by (simp add: agrees_def get_value_def call_func_eq eval_nat_numeral)
    next
      case Hang
      with None False assms show ?thesis
        by (simp add: agrees_def get_value_def call_func_eq eval_nat_numeral)
    qed
  qed
qed

subsection \<open>Threads: the invariant\<close>

lemma invocations_call [simp]:
  "invocations a (s\<lparr>world := w, calls := calls s @ [a]\<rparr>) = Suc (invocations a s)"
  by (simp add: invocations_def)

lemma invocations_set [simp]:
  "invocations a (set_lock b l s) = invocations a s"
  "invocations a (set_value b r s) = invocations a s"
  by (simp_all add: invocations_def)

lemma set_value_nth_func_a [simp]:
  "a < length (heap s) \<Longrightarrow> h_func (heap (set_value a r s) ! a) = h_func (heap s ! a)"
  by simp

lemma holders_update:
  "i < length pcs \<Longrightarrow>
   holders (pcs[i := pc']) = (if holding pc' then insert i (holders pcs) else holders pcs - {i})"
  by (auto simp add: holders_def nth_list_update)

lemma storing_holding: "storing pc \<Longrightarrow> holding pc"
  by (cases pc) simp_all

lemma storing_update_same:
  assumes "i < length pcs" and "\<not> storing pc'" and "\<not> storing (pcs ! i)"
  shows "(\<exists>j<length (pcs[i := pc']). storing (pcs[i := pc'] ! j)) \<longleftrightarrow>
         (\<exists>j<length pcs. storing (pcs ! j))"
  using assms by (auto simp add: nth_list_update)

lemma pc_ok_update:
  assumes "i < length pcs" and "pc_ok v val c pc'"
    and "\<forall>j<length pcs. j \<noteq> i \<longrightarrow> pc_ok v val c (pcs ! j)"
  shows "\<forall>j<length (pcs[i := pc']). pc_ok v val c (pcs[i := pc'] ! j)"
  using assms by (simp add: nth_list_update)

lemma pc_ok_not_holding:
  assumes "\<not> holding pc" and "pc_ok v val c pc" and "val = None \<or> val' = val"
  shows "pc_ok v val' c' pc"
  using assms by (cases pc) auto

lemma sole_holder:
  assumes "if l then \<exists>j. holders pcs = {j} else holders pcs = {}"
    and "i < length pcs" and "holding (pcs ! i)"
  shows "l" and "holders pcs = {i}" and "\<forall>j<length pcs. j \<noteq> i \<longrightarrow> \<not> holding (pcs ! j)"
proof -
  have mem: "i \<in> holders pcs"
    using assms(2,3) by (simp add: holders_def)
  then show "l" using assms(1) by (cases l) auto
  then obtain j where j: "holders pcs = {j}" using assms(1) by auto
  with mem show h: "holders pcs = {i}" by auto
  show "\<forall>j<length pcs. j \<noteq> i \<longrightarrow> \<not> holding (pcs ! j)"
  proof (intro allI impI)
    fix k assume "k < length pcs" "k \<noteq> i"
    then have "k \<notin> holders pcs" using h by simp
    with \<open>k < length pcs\<close> show "\<not> holding (pcs ! k)" by (simp add: holders_def)
  qed
qed

lemma no_holder:
  assumes "holders pcs = {}" and "j < length pcs"
  shows "\<not> holding (pcs ! j)"
  using assms by (auto simp add: holders_def)

lemma sys_inv_local:
  assumes inv: "sys_inv a v w0 k0 (s, pcs)" and i: "i < length pcs"
    and hold: "holding pc' = holding (pcs ! i)"
    and st: "\<not> storing pc'" "\<not> storing (pcs ! i)"
    and ok: "pc_ok v (h_value (heap s ! a)) (world s = Suc w0) pc'"
  shows "sys_inv a v w0 k0 (s, pcs[i := pc'])"
proof -
  have h: "holders (pcs[i := pc']) = holders pcs"
    using i hold by (auto simp add: holders_def nth_list_update)
  have s: "(\<exists>j<length (pcs[i := pc']). storing (pcs[i := pc'] ! j)) \<longleftrightarrow>
           (\<exists>j<length pcs. storing (pcs ! j))"
    using i st by (rule storing_update_same)
  have p: "\<forall>j<length (pcs[i := pc']). pc_ok v (h_value (heap s ! a)) (world s = Suc w0)
             (pcs[i := pc'] ! j)"
    using i ok inv by (intro pc_ok_update) (simp_all add: sys_inv_def)
  show ?thesis
    using inv unfolding sys_inv_def prod.case h s using p by blast 
qed


lemma sys_inv_step:
  assumes inv: "sys_inv a v w0 k0 (s, pcs)"
    and i: "i < length pcs"
    and st: "thread_step a (pcs ! i) s = Some (pc', s')"
  shows "sys_inv a v w0 k0 (s', pcs[i := pc'])"
proof -
  let ?val = "h_value (heap s ! a)"
  let ?called = "world s = Suc w0"
  have a: "a < length (heap s)" and f: "h_func (heap s ! a) = counting_factory v"
    and cnt: "world s = w0 \<and> invocations a s = k0 \<or>
              world s = Suc w0 \<and> invocations a s = Suc k0"
    and val: "case ?val of Some x \<Rightarrow> x = v \<and> world s = Suc w0
              | None \<Rightarrow> world s = Suc w0 \<longrightarrow> (\<exists>j<length pcs. storing (pcs ! j))"
    and lck: "if h_lock (heap s ! a) then \<exists>j. holders pcs = {j} else holders pcs = {}"
    and oks: "\<forall>j<length pcs. pc_ok v ?val ?called (pcs ! j)"
    using inv by (simp_all add: sys_inv_def)
  have ok: "pc_ok v ?val ?called (pcs ! i)"
    using oks i by blast
  show ?thesis
  proof (cases "pcs ! i")
    case Test
    then have "s' = s" and "pc' = (case ?val of Some v \<Rightarrow> FastRet | None \<Rightarrow> Enter)"
      using st by auto
    moreover have "pc_ok v ?val ?called (case ?val of Some v \<Rightarrow> FastRet | None \<Rightarrow> Enter)"
      using val by (cases ?val) simp_all
    ultimately show ?thesis
      using inv i Test by (intro sys_inv_local [where s = s, folded \<open>s' = s\<close>])
        (auto split: option.splits)
  next
    case FastRet
    then have "s' = s" and "pc' = Done (Return ?val)"
      using st by auto
    then show ?thesis
      using inv i FastRet ok by (intro sys_inv_local [where s = s, folded \<open>s' = s\<close>]) auto
  next
    case Enter
    then have free: "\<not> h_lock (heap s ! a)" and s': "s' = set_lock a True s" and pc': "pc' = Retest"
      using st by (auto split: if_splits)
    have none: "holders pcs = {}"
      using lck free by simp
    have h: "holders (pcs[i := pc']) = {i}"
      using i none pc' by (simp add: holders_update)
    have sto: "(\<exists>j<length (pcs[i := pc']). storing (pcs[i := pc'] ! j)) \<longleftrightarrow>
               (\<exists>j<length pcs. storing (pcs ! j))"
      using i pc' Enter by (intro storing_update_same) simp_all
    have p: "\<forall>j<length (pcs[i := pc']). pc_ok v ?val ?called (pcs[i := pc'] ! j)"
      using i oks pc' by (intro pc_ok_update) simp_all
    show ?thesis
      unfolding sys_inv_def prod.case h sto s'
      using a f cnt val p by (simp cong: option.case_cong)
  next
    case Retest
    then have "s' = s" and "pc' = (case ?val of None \<Rightarrow> Call | Some v \<Rightarrow> Assert)"
      using st by auto
    moreover have "pc_ok v ?val ?called (case ?val of None \<Rightarrow> Call | Some v \<Rightarrow> Assert)"
    proof (cases ?val)
      case None
      have hi: "holding (pcs ! i)"
        using Retest by simp
      have "\<forall>j<length pcs. j \<noteq> i \<longrightarrow> \<not> holding (pcs ! j)"
        using lck i hi by (rule sole_holder(3))
      moreover have "\<not> storing (pcs ! i)"
        using Retest by simp
      ultimately have "\<not> (\<exists>j<length pcs. storing (pcs ! j))"
        using storing_holding by blast
      with None val show ?thesis by simp
    next
      case (Some x)
      with val show ?thesis by simp
    qed
    ultimately show ?thesis
      using inv i Retest by (intro sys_inv_local [where s = s, folded \<open>s' = s\<close>])
        (auto split: option.splits)
  next
    case Call
    have pre: "?val = None" "world s = w0" "invocations a s = k0"
      using ok cnt Call by auto
    have s': "s' = s\<lparr>world := Suc (world s), calls := calls s @ [a]\<rparr>"
      and pc': "pc' = Store (Some v)"
      using st Call f by (auto simp add: call_func_eq counting_factory_def)
    have hi: "holding (pcs ! i)"
      using Call by simp
    note sole = sole_holder [OF lck i hi]
    have h: "holders (pcs[i := pc']) = {i}"
      using i sole(2) pc' by (simp add: holders_update)
    have sto: "\<exists>j<length (pcs[i := pc']). storing (pcs[i := pc'] ! j)"
      using i pc' by (intro exI [of _ i]) simp
    have p: "\<forall>j<length (pcs[i := pc']). pc_ok v None True (pcs[i := pc'] ! j)"
      using i pc' sole(3) oks pre(1)
      by (intro pc_ok_update) (auto intro: pc_ok_not_holding)
    show ?thesis
      unfolding sys_inv_def prod.case h s'
      using a f pre sole(1) sto p by simp
  next
    case (Store r)
    have pre: "r = Some v" "?val = None" "world s = Suc w0"
      using ok Store by auto
    have s': "s' = set_value a (Some v) s" and pc': "pc' = Assert"
      using st Store pre by auto
    have hi: "holding (pcs ! i)"
      using Store by simp
    note sole = sole_holder [OF lck i hi]
    have h: "holders (pcs[i := pc']) = {i}"
      using i sole(2) pc' by (simp add: holders_update)
    have p: "\<forall>j<length (pcs[i := pc']). pc_ok v (Some v) True (pcs[i := pc'] ! j)"
      using i pc' sole(3) oks pre(2)
      by (intro pc_ok_update) (auto intro: pc_ok_not_holding)
    show ?thesis
      unfolding sys_inv_def prod.case h s'
      using a f cnt pre sole(1) p by simp
  next
    case Assert
    then have "s' = s" and "pc' = (case ?val of None \<Rightarrow> Exit (Raise AssertionError) | Some v \<Rightarrow> Ret)"
      using st by auto
    moreover have "?val = Some v" using ok Assert by simp
    ultimately show ?thesis
      using inv i Assert by (intro sys_inv_local [where s = s, folded \<open>s' = s\<close>]) auto
  next
    case Ret
    then have "s' = s" and "pc' = Exit (Return ?val)"
      using st by auto
    moreover have "?val = Some v" using ok Ret by simp
    ultimately show ?thesis
      using inv i Ret by (intro sys_inv_local [where s = s, folded \<open>s' = s\<close>]) auto
  next
    case (Exit r)
    have pre: "r = Return (Some v)" "?val = Some v"
      using ok Exit by auto
    have s': "s' = set_lock a False s" and pc': "pc' = Done r"
      using st Exit by auto
    have hi: "holding (pcs ! i)"
      using Exit by simp
    note sole = sole_holder(2) [OF lck i hi]
    have h: "holders (pcs[i := pc']) = {}"
      using i sole pc' by (simp add: holders_update)
    have p: "\<forall>j<length (pcs[i := pc']). pc_ok v ?val ?called (pcs[i := pc'] ! j)"
      using i oks pc' pre by (intro pc_ok_update) simp_all
    show ?thesis
      unfolding sys_inv_def prod.case h s'
      using a f cnt val pre p by (simp cong: option.case_cong)
  next
    case (Done r)
    with st show ?thesis by simp
  next
    case Stuck
    with st show ?thesis by simp
  qed
qed

subsection \<open>Threads: runs\<close>

lemma run_step_first:
  assumes "run a k c1 c2" and "sys_step a c c1"
  shows "run a (Suc k) c c2"
  using assms
proof (induction rule: run.induct)
  case (run_0 c1)
  then show ?case using run.run_0 run.run_Suc by blast
next
  case (run_Suc k c1 c2 c3)
  then show ?case using run.run_Suc by blast
qed

lemma exec_run: "exec a sched c = Some c' \<Longrightarrow> run a (length sched) c c'"
proof (induction sched arbitrary: c)
  case Nil
  then show ?case by (simp add: run_0)
next
  case (Cons i sched)
  obtain s pcs where c: "c = (s, pcs)" by (cases c)
  from Cons.prems c obtain pc' s' where i: "i < length pcs"
    and st: "thread_step a (pcs ! i) s = Some (pc', s')"
    and rest: "exec a sched (s', pcs[i := pc']) = Some c'"
    by (auto split: if_splits option.splits)
  have "sys_step a (s, pcs) (s', pcs[i := pc'])"
    using i st by (rule sys_step.thread)
  moreover have "run a (length sched) (s', pcs[i := pc']) c'"
    using rest by (rule Cons.IH)
  ultimately show ?case
    using c by (simp add: run_step_first)
qed

lemma sys_inv_init:
  assumes "a < length (heap s0)" "h_value (heap s0 ! a) = None" "\<not> h_lock (heap s0 ! a)"
    and "h_func (heap s0 ! a) = counting_factory v"
  shows "sys_inv a v (world s0) (invocations a s0) (s0, replicate n Test)"
  using assms by (simp add: sys_inv_def holders_def)

lemma sys_inv_sys_step:
  assumes "sys_step a c c'" and "sys_inv a v w0 k0 c"
  shows "sys_inv a v w0 k0 c'"
  using assms
proof cases
  case (thread i pcs s pc' s')
  then show ?thesis using assms(2) sys_inv_step by blast
qed

lemma sys_inv_run:
  "run a k c c' \<Longrightarrow> sys_inv a v w0 k0 c \<Longrightarrow> sys_inv a v w0 k0 c'"
  by (induction rule: run.induct) (auto intro: sys_inv_sys_step)

lemma run_remaining:
  "run a k c c' \<Longrightarrow> k + remaining (snd c') \<le> remaining (snd c)"
proof (induction rule: run.induct)
  case (run_0 c)
  then show ?case by simp
next
  case (run_Suc k c c1 c2)
  then show ?case using sys_step_remaining [of a c1 c2] by simp
qed

lemma remaining_start: "remaining (replicate n Test) = 8 * n"
  by (induction n) (simp_all add: remaining_def)

lemma not_terminal_step:
  assumes "\<not> terminal a c"
  shows "\<exists>c'. sys_step a c c'"
proof -
  obtain s pcs where c: "c = (s, pcs)" by (cases c)
  from assms c obtain pc where "pc \<in> set pcs" "thread_step a pc s \<noteq> None"
    by (auto simp add: terminal_def)
  then obtain i pc' s' where "i < length pcs" "thread_step a (pcs ! i) s = Some (pc', s')"
    by (auto simp add: in_set_conv_nth)
  then have "sys_step a (s, pcs) (s', pcs[i := pc'])" by (rule sys_step.thread)
  then show ?thesis using c by blast
qed

lemma holder_enabled:
  assumes "holding pc" and "h_func (heap s ! a) = counting_factory v"
  shows "thread_step a pc s \<noteq> None"
  using assms by (cases pc) (simp_all add: call_func_eq counting_factory_def)

lemma sys_inv_terminal:
  assumes inv: "sys_inv a v w0 k0 (s, pcs)" and final: "terminal a (s, pcs)"
  shows "pcs = replicate (length pcs) (Done (Return (Some v)))"
    and "0 < length pcs \<Longrightarrow> world s = Suc w0 \<and> invocations a s = Suc k0"
proof -
  have f: "h_func (heap s ! a) = counting_factory v"
    and cnt: "world s = w0 \<and> invocations a s = k0 \<or>
              world s = Suc w0 \<and> invocations a s = Suc k0"
    and lck: "if h_lock (heap s ! a) then \<exists>j. holders pcs = {j} else holders pcs = {}"
    and oks: "\<forall>j<length pcs. pc_ok v (h_value (heap s ! a)) (world s = Suc w0) (pcs ! j)"
    using inv by (simp_all add: sys_inv_def)
  have stuck: "thread_step a (pcs ! j) s = None" if "j < length pcs" for j
    using final that by (simp add: terminal_def)
  have nohold: "\<not> holding (pcs ! j)" if "j < length pcs" for j
    using stuck [OF that] holder_enabled [OF _ f] by blast
  have free: "\<not> h_lock (heap s ! a)"
  proof
    assume "h_lock (heap s ! a)"
    then obtain j where "holders pcs = {j}" using lck by auto
    then have "j < length pcs" "holding (pcs ! j)" by (auto simp add: holders_def)
    then show False using nohold by blast
  qed
  have finished: "pcs ! j = Done (Return (Some v)) \<and> h_value (heap s ! a) = Some v"
    if "j < length pcs" for j
    using stuck [OF that] nohold [OF that] oks that free
    by (cases "pcs ! j") (auto split: if_splits)
  from finished show "pcs = replicate (length pcs) (Done (Return (Some v)))"
    by (simp add: list_eq_iff_nth_eq)
  show "world s = Suc w0 \<and> invocations a s = Suc k0" if "0 < length pcs"
  proof -
    have "h_value (heap s ! a) = Some v" using finished that by blast
    then have "world s = Suc w0" using inv by (simp add: sys_inv_def)
    then show ?thesis using cnt by simp
  qed
qed

lemma run_length: "run a k c c' \<Longrightarrow> length (snd c') = length (snd c)"
proof (induction rule: run.induct)
  case (run_0 c)
  show ?case by simp
next
  case (run_Suc k c c1 c2)
  from run_Suc.hyps(2) have "length (snd c2) = length (snd c1)"
    by cases simp
  with run_Suc.IH show ?case by simp
qed


lemma counting_factory_apply: "counting_factory v c = (Return (Some v), Suc c)"
  by (simp add: counting_factory_def)

lemma length_two_thread_schedule: "length two_thread_schedule = 14"
  by (simp add: two_thread_schedule_def)

lemma exec_two_threads:
  "exec 0 two_thread_schedule (fresh_proc (counting_factory 7), [Test, Test]) =
     Some (warm_proc (counting_factory 7), [Done (Return (Some 7)), Done (Return (Some 7))])"
  by (simp add: two_thread_schedule_def fresh_proc_eq warm_proc_eq call_func_def set_lock_def
        set_value_def counting_factory_apply)


subsection \<open>Calls in sequence: a result of \<^verbatim>\<open>None\<close>, a lock that is held\<close>

lemma get_value_returns_None:
  assumes "a < length (heap s)" "h_value (heap s ! a) = None" "\<not> h_lock (heap s ! a)"
    and "h_func (heap s ! a) (world s) = (Return None, w1)"
  shows "get_value a s = (Raise AssertionError, s\<lparr>world := w1, calls := calls s @ [a]\<rparr>)"
  using assms
  by (simp add: get_value_def call_func_def set_lock_def set_value_def assert_and_return_def
        list_update_same_conv)

lemma get_value_locked:
  "h_value (heap s ! a) = None \<Longrightarrow> h_lock (heap s ! a) \<Longrightarrow> get_value a s = (Hang, s)"
  by (simp add: get_value_def)

lemma get_value_calls_locked:
  "h_value (heap s ! a) = None \<Longrightarrow> h_lock (heap s ! a) \<Longrightarrow>
   get_value_calls n a s = (replicate n Hang, s)"
  by (induction n) (simp_all add: get_value_locked)

lemma get_value_invokes:
  assumes "a < length (heap s)" "h_value (heap s ! a) = None" "\<not> h_lock (heap s ! a)"
  shows "invocations a (snd (get_value a s)) = invocations a s + 1"
  using assms
  by (simp add: get_value_def call_func_eq assert_and_return_def invocations_def Let_def
        split: outcome.splits option.splits)

lemma get_value_calls_always_None:
  assumes "a < length (heap s)" "h_value (heap s ! a) = None" "\<not> h_lock (heap s ! a)"
    and "\<forall>w. fst (h_func (heap s ! a) w) = Return None"
  shows "fst (get_value_calls n a s) = replicate n (Raise AssertionError) \<and>
         invocations a (snd (get_value_calls n a s)) = invocations a s + n"
  using assms
proof (induction n arbitrary: s)
  case 0
  then show ?case by simp
next
  case (Suc n)
  let ?w1 = "snd (h_func (heap s ! a) (world s))"
  let ?s1 = "s\<lparr>world := ?w1, calls := calls s @ [a]\<rparr>"
  have f: "h_func (heap s ! a) (world s) = (Return None, ?w1)"
    using Suc.prems(4) by (metis prod.collapse)
  have first: "get_value a s = (Raise AssertionError, ?s1)"
    using Suc.prems(1-3) f by (rule get_value_returns_None)
  have rest: "fst (get_value_calls n a ?s1) = replicate n (Raise AssertionError) \<and>
         invocations a (snd (get_value_calls n a ?s1)) = invocations a ?s1 + n"
    using Suc.prems by (intro Suc.IH) simp_all
  have "invocations a ?s1 = invocations a s + 1"
    by (simp add: invocations_def)
  with first rest show ?case
    by (simp add: split_beta)
qed

lemma length_none_schedule: "length none_schedule = 14"
  by (simp add: none_schedule_def)

lemma exec_two_threads_none:
  "exec 0 none_schedule (fresh_proc none_factory, [Test, Test]) =
     Some ((fresh_proc none_factory)\<lparr>world := 2, calls := [0, 0]\<rparr>,
           [Done (Raise AssertionError), Done (Raise AssertionError)])"
  by (simp add: none_schedule_def fresh_proc_eq call_func_def set_lock_def
        set_value_def none_factory_def)

section \<open>Claims\<close>

subsection \<open>C1: how often the factory runs\<close>

text \<open>
  Claim C1 says that any number of calls of \<^verbatim>\<open>_get_value\<close> in sequence invokes a factory
  that does not raise at most once, also when the factory returns \<^verbatim>\<open>None\<close>. That fails
  for a factory returning \<^verbatim>\<open>None\<close>: the slot stays empty, the \<^verbatim>\<open>assert\<close> raises, and the
  next call invokes the factory again. Here \<open>none_factory\<close> raises in neither of the two
  worlds it is invoked in, and two calls invoke it twice.
\<close>

theorem none_factory_reinvoked:
  "fst (none_factory 0) = Return None \<and> fst (none_factory 1) = Return None \<and>
   invocations 0 (fresh_proc none_factory) = 0 \<and>
   invocations 0 (snd (get_value_calls 2 0 (fresh_proc none_factory))) = 2 \<and>
   fst (get_value_calls 2 0 (fresh_proc none_factory))
     = [Raise AssertionError, Raise AssertionError]"
  by (simp add: fresh_proc_eq get_value_def none_factory_def call_func_def set_lock_def
        set_value_def assert_and_return_def invocations_def numeral_2_eq_2)

text \<open>
  Claim C1, amended, for \<open>n\<close> calls of \<^verbatim>\<open>_get_value\<close> in sequence on an instance:
  \<^item> if the factory, whenever it is invoked, returns an object other than \<^verbatim>\<open>None\<close> (it
    neither raises nor returns \<^verbatim>\<open>None\<close>), the calls invoke it at most once;
  \<^item> if the slot is populated, every call returns the object in it and nothing changes: the
    factory is not invoked;
  \<^item> if the slot is empty, the lock free and the factory, invoked now, returns the object
    \<open>v\<close>, then the first call invokes the factory, exactly once, returns \<open>v\<close> and stores it,
    every call returns \<open>v\<close>, and all the calls together invoke the factory exactly once;
  \<^item> if the slot is empty, the lock free and the factory, invoked now, returns \<^verbatim>\<open>None\<close>,
    then the call raises \<^verbatim>\<open>AssertionError\<close>, the slot is still empty and the lock free, and the
    next call invokes the factory again; a factory that always returns \<^verbatim>\<open>None\<close> is invoked
    once by every call, and every call raises \<^verbatim>\<open>AssertionError\<close>.
\<close>

theorem factory_at_most_once:
  assumes "a < length (heap s)"
  shows "((\<forall>w. \<exists>v w'. h_func (heap s ! a) w = (Return (Some v), w')) \<longrightarrow>
            invocations a (snd (get_value_calls n a s)) \<le> invocations a s + 1) \<and>
         (h_value (heap s ! a) = Some x \<longrightarrow>
            get_value_calls n a s = (replicate n (Return (Some x)), s)) \<and>
         (h_value (heap s ! a) = None \<and> \<not> h_lock (heap s ! a) \<and>
          h_func (heap s ! a) (world s) = (Return (Some v), w1) \<longrightarrow>
            fst (get_value a s) = Return (Some v) \<and>
            h_value (heap (snd (get_value a s)) ! a) = Some v \<and>
            invocations a (snd (get_value a s)) = invocations a s + 1 \<and>
            fst (get_value_calls n a s) = replicate n (Return (Some v)) \<and>
            (0 < n \<longrightarrow> invocations a (snd (get_value_calls n a s)) = invocations a s + 1)) \<and>
         (h_value (heap s ! a) = None \<and> \<not> h_lock (heap s ! a) \<and>
          h_func (heap s ! a) (world s) = (Return None, w1) \<longrightarrow>
            fst (get_value a s) = Raise AssertionError \<and>
            h_value (heap (snd (get_value a s)) ! a) = None \<and>
            \<not> h_lock (heap (snd (get_value a s)) ! a) \<and>
            invocations a (snd (get_value a s)) = invocations a s + 1 \<and>
            invocations a (snd (get_value a (snd (get_value a s)))) = invocations a s + 2) \<and>
         (h_value (heap s ! a) = None \<and> \<not> h_lock (heap s ! a) \<and>
          (\<forall>w. fst (h_func (heap s ! a) w) = Return None) \<longrightarrow>
            fst (get_value_calls n a s) = replicate n (Raise AssertionError) \<and>
            invocations a (snd (get_value_calls n a s)) = invocations a s + n)"
proof -
  have populated: "get_value_calls n a s = (replicate n (Return (Some x)), s)"
    if "h_value (heap s ! a) = Some x" for x
    using that by (rule get_value_calls_populated)
  have once: "fst (get_value a s) = Return (Some v) \<and>
            h_value (heap (snd (get_value a s)) ! a) = Some v \<and>
            invocations a (snd (get_value a s)) = invocations a s + 1 \<and>
            fst (get_value_calls n a s) = replicate n (Return (Some v)) \<and>
            (0 < n \<longrightarrow> invocations a (snd (get_value_calls n a s)) = invocations a s + 1)"
    if "h_value (heap s ! a) = None" "\<not> h_lock (heap s ! a)"
      "h_func (heap s ! a) (world s) = (Return (Some v), w1)" for v w1
  proof -
    have one: "get_value a s =
       (Return (Some v), s\<lparr>heap := (heap s)[a := (heap s ! a)\<lparr>h_value := Some v\<rparr>],
                           world := w1, calls := calls s @ [a]\<rparr>)"
      using assms that by (rule get_value_returns)
    have many: "fst (get_value_calls n a s) = replicate n (Return (Some v)) \<and>
            (0 < n \<longrightarrow> invocations a (snd (get_value_calls n a s)) = invocations a s + 1)"
    proof (cases n)
      case 0
      then show ?thesis by simp
    next
      case (Suc m)
      then show ?thesis
        using get_value_calls_first [OF assms that, of m]
        by (simp add: invocations_def del: get_value_calls.simps replicate.simps)
    qed
    show ?thesis
      using assms one many by (simp add: invocations_def)
  qed
  have none: "fst (get_value a s) = Raise AssertionError \<and>
            h_value (heap (snd (get_value a s)) ! a) = None \<and>
            \<not> h_lock (heap (snd (get_value a s)) ! a) \<and>
            invocations a (snd (get_value a s)) = invocations a s + 1 \<and>
            invocations a (snd (get_value a (snd (get_value a s)))) = invocations a s + 2"
    if "h_value (heap s ! a) = None" "\<not> h_lock (heap s ! a)"
      "h_func (heap s ! a) (world s) = (Return None, w1)" for w1
  proof -
    let ?s1 = "s\<lparr>world := w1, calls := calls s @ [a]\<rparr>"
    have one: "get_value a s = (Raise AssertionError, ?s1)"
      using assms that by (rule get_value_returns_None)
    have "invocations a (snd (get_value a ?s1)) = invocations a ?s1 + 1"
      using assms that(1,2) by (intro get_value_invokes) simp_all
    then show ?thesis
      using that(1,2) by (simp add: one invocations_def)
  qed
  have always: "fst (get_value_calls n a s) = replicate n (Raise AssertionError) \<and>
            invocations a (snd (get_value_calls n a s)) = invocations a s + n"
    if "h_value (heap s ! a) = None" "\<not> h_lock (heap s ! a)"
      "\<forall>w. fst (h_func (heap s ! a) w) = Return None"
    using assms that by (rule get_value_calls_always_None)
  have bound: "invocations a (snd (get_value_calls n a s)) \<le> invocations a s + 1"
    if good: "\<forall>w. \<exists>v w'. h_func (heap s ! a) w = (Return (Some v), w')"
  proof (cases "h_value (heap s ! a)")
    case (Some x)
    then show ?thesis by (simp add: populated)
  next
    case None
    show ?thesis
    proof (cases "h_lock (heap s ! a)")
      case True
      with None show ?thesis by (simp add: get_value_calls_locked)
    next
      case False
      obtain v w1 where "h_func (heap s ! a) (world s) = (Return (Some v), w1)"
        using good by blast
      from once [OF None False this] show ?thesis
        by (cases n) simp_all
    qed
  qed
  show ?thesis
    using populated once none always bound by blast
qed

theorem factory_at_most_once_witness:
  "(0::nat) < length (heap (fresh_proc (counting_factory 7))) \<and>
   h_value (heap (fresh_proc (counting_factory 7)) ! 0) = None \<and>
   \<not> h_lock (heap (fresh_proc (counting_factory 7)) ! 0) \<and>
   h_func (heap (fresh_proc (counting_factory 7)) ! 0) (world (fresh_proc (counting_factory 7)))
     = (Return (Some 7), 1) \<and>
   fst (get_value_calls 3 0 (fresh_proc (counting_factory 7))) = replicate 3 (Return (Some 7)) \<and>
   invocations 0 (snd (get_value_calls 3 0 (fresh_proc (counting_factory 7)))) = 1 \<and>
   h_value (heap (warm_proc (counting_factory 7)) ! 0) = Some 7 \<and>
   get_value_calls 3 0 (warm_proc (counting_factory 7))
     = (replicate 3 (Return (Some 7)), warm_proc (counting_factory 7)) \<and>
   h_func (heap (fresh_proc none_factory) ! 0) (world (fresh_proc none_factory))
     = (Return None, 1) \<and>
   fst (get_value 0 (fresh_proc none_factory)) = Raise AssertionError \<and>
   invocations 0 (snd (get_value 0 (snd (get_value 0 (fresh_proc none_factory))))) = 2 \<and>
   invocations 0 (snd (get_value_calls 3 0 (fresh_proc none_factory))) = 3"
  using factory_at_most_once [where a = 0 and s = "fresh_proc (counting_factory 7)" and n = 3
      and v = 7 and ?w1.0 = 1]
    factory_at_most_once [where a = 0 and s = "warm_proc (counting_factory 7)" and n = 3
      and x = 7]
    factory_at_most_once [where a = 0 and s = "fresh_proc none_factory" and n = 3
      and ?w1.0 = 1]
  by (simp add: fresh_proc_eq warm_proc_eq invocations_def counting_factory_apply)
     (simp add: none_factory_def)

subsection \<open>C2: calls from several threads\<close>

text \<open>
  Claim C2 says that calls of \<^verbatim>\<open>_get_value\<close> from \<open>n\<close> threads increment the counter of a
  counter-incrementing factory exactly once, whatever the factory returns. That fails for a
  factory that increments the counter and returns \<^verbatim>\<open>None\<close>: the slot stays empty, so every
  thread in its turn takes the lock, finds the slot empty and invokes the factory. Here two
  threads run to the end; both raise \<^verbatim>\<open>AssertionError\<close>, and the counter is at 2.
\<close>

theorem concurrent_none_factory_every_thread:
  "snd (none_factory 0) = 1 \<and> snd (none_factory 1) = 2 \<and>
   fst (none_factory 0) = Return None \<and> fst (none_factory 1) = Return None \<and>
   world (fresh_proc none_factory) = 0 \<and>
   run 0 14 (fresh_proc none_factory, replicate 2 Test)
     ((fresh_proc none_factory)\<lparr>world := 2, calls := [0, 0]\<rparr>,
      replicate 2 (Done (Raise AssertionError))) \<and>
   terminal 0 ((fresh_proc none_factory)\<lparr>world := 2, calls := [0, 0]\<rparr>,
      replicate 2 (Done (Raise AssertionError))) \<and>
   world ((fresh_proc none_factory)\<lparr>world := 2, calls := [0, 0]\<rparr>) = 2 \<and>
   invocations 0 ((fresh_proc none_factory)\<lparr>world := 2, calls := [0, 0]\<rparr>) = 2"
proof -
  have r: "run 0 14 (fresh_proc none_factory, replicate 2 Test)
     ((fresh_proc none_factory)\<lparr>world := 2, calls := [0, 0]\<rparr>,
      replicate 2 (Done (Raise AssertionError)))"
    using exec_run [OF exec_two_threads_none]
    by (simp add: length_none_schedule numeral_2_eq_2)
  have t: "terminal 0 ((fresh_proc none_factory)\<lparr>world := 2, calls := [0, 0]\<rparr>,
      replicate 2 (Done (Raise AssertionError)))"
    by (simp add: terminal_def)
  show ?thesis
    using r t by (simp add: none_factory_def fresh_proc_eq invocations_def)
qed

text \<open>
  Claim C2, amended: \<open>n\<close> threads call \<^verbatim>\<open>_get_value\<close> on an instance with an empty slot and
  a free lock, whose factory increments the counter and returns an object \<open>v\<close> other than
  \<^verbatim>\<open>None\<close>. Take any interleaving of their steps, of any length \<open>k\<close>. Then \<open>k\<close> is at most
  \<open>8 * n\<close>: no interleaving goes on for ever. The counter has been incremented at most once
  and the factory invoked at most once so far. As long as some thread can move there is a
  next step, and once no thread can move, every thread has returned \<open>v\<close>, and for \<open>n > 0\<close>
  the counter has been incremented exactly once, by exactly one invocation.
\<close>

theorem concurrent_get_value_once:
  assumes "a < length (heap s0)" "h_value (heap s0 ! a) = None" "\<not> h_lock (heap s0 ! a)"
    and "h_func (heap s0 ! a) = counting_factory v"
    and "run a k (s0, replicate n Test) (s, pcs)"
  shows "k + remaining pcs \<le> 8 * n \<and>
         world s \<le> world s0 + 1 \<and> invocations a s \<le> invocations a s0 + 1 \<and>
         (\<not> terminal a (s, pcs) \<longrightarrow> (\<exists>c'. sys_step a (s, pcs) c')) \<and>
         (terminal a (s, pcs) \<longrightarrow>
            pcs = replicate n (Done (Return (Some v))) \<and>
            (0 < n \<longrightarrow> world s = world s0 + 1 \<and> invocations a s = invocations a s0 + 1))"
proof -
  have inv: "sys_inv a v (world s0) (invocations a s0) (s, pcs)"
    using assms(5) sys_inv_init [OF assms(1-4)] by (rule sys_inv_run)
  have len: "length pcs = n"
    using run_length [OF assms(5)] by simp
  have bound: "k + remaining pcs \<le> 8 * n"
    using run_remaining [OF assms(5)] by (simp add: remaining_start)
  have safe: "world s \<le> world s0 + 1 \<and> invocations a s \<le> invocations a s0 + 1"
    using inv by (auto simp add: sys_inv_def)
  have fin: "pcs = replicate n (Done (Return (Some v))) \<and>
            (0 < n \<longrightarrow> world s = world s0 + 1 \<and> invocations a s = invocations a s0 + 1)"
    if "terminal a (s, pcs)"
    using sys_inv_terminal [OF inv that] len by simp
  show ?thesis
    using bound safe fin not_terminal_step [of a "(s, pcs)"] by blast
qed

theorem concurrent_get_value_once_witness:
  "(0::nat) < length (heap (fresh_proc (counting_factory 7))) \<and>
   h_value (heap (fresh_proc (counting_factory 7)) ! 0) = None \<and>
   \<not> h_lock (heap (fresh_proc (counting_factory 7)) ! 0) \<and>
   h_func (heap (fresh_proc (counting_factory 7)) ! 0) = counting_factory 7 \<and>
   run 0 14 (fresh_proc (counting_factory 7), replicate 2 Test)
     (warm_proc (counting_factory 7), replicate 2 (Done (Return (Some 7)))) \<and>
   terminal 0 (warm_proc (counting_factory 7), replicate 2 (Done (Return (Some 7)))) \<and>
   world (fresh_proc (counting_factory 7)) = 0 \<and>
   world (warm_proc (counting_factory 7)) = 1 \<and>
   invocations 0 (warm_proc (counting_factory 7)) = 1"
proof -
  have h: "(0::nat) < length (heap (fresh_proc (counting_factory 7)))"
    "h_value (heap (fresh_proc (counting_factory 7)) ! 0) = None"
    "\<not> h_lock (heap (fresh_proc (counting_factory 7)) ! 0)"
    "h_func (heap (fresh_proc (counting_factory 7)) ! 0) = counting_factory 7"
    by (simp_all add: fresh_proc_eq)
  have r: "run 0 14 (fresh_proc (counting_factory 7), replicate 2 Test)
     (warm_proc (counting_factory 7), replicate 2 (Done (Return (Some 7))))"
    using exec_run [OF exec_two_threads]
    by (simp add: length_two_thread_schedule numeral_2_eq_2)
  have t: "terminal 0 (warm_proc (counting_factory 7), replicate 2 (Done (Return (Some 7))))"
    by (simp add: terminal_def)
  show ?thesis
    using h r t concurrent_get_value_once [OF h r]
    by (simp add: fresh_proc_eq invocations_def)
qed

subsection \<open>C3: unpickling in the same process\<close>

text \<open>
  Claim C3: in any state the process can be in, pickling an instance with \<^verbatim>\<open>__reduce__\<close> and
  unpickling it in the same process returns the reference of that very instance and changes
  nothing (no instance is created); the pickle is the pair of the factory and the token, and
  it is the same whatever the value slot holds.
\<close>

theorem unpickle_same_object:
  assumes "evolves tokenize (new_proc w) s" and "a < length (heap s)"
  shows "unpickle tokenize (opw_reduce (heap s ! a)) s = (Return a, s) \<and>
         opw_reduce (heap s ! a) = (h_func (heap s ! a), h_token (heap s ! a)) \<and>
         opw_reduce ((heap s ! a)\<lparr>h_value := x\<rparr>) = opw_reduce (heap s ! a)"
proof -
  have ok: "registry_ok tokenize s"
    using assms(1) registry_ok_new_proc by (rule evolves_registry_ok)
  let ?h = "heap s ! a"
  have reg: "instances s (h_token ?h) = Some a"
    and emp: "h_token ?h = [] \<Longrightarrow> tokenize (h_func ?h) = Return []"
    and free: "\<not> instances_lock s"
    using ok assms(2) by (simp_all add: registry_ok_def)
  have "token_or_tokenize tokenize (h_func ?h) (Some (h_token ?h)) = Return (h_token ?h)"
    using emp by (simp add: token_or_tokenize_def)
  then have "instance_for_function tokenize (h_func ?h) (Some (h_token ?h)) s = (Return a, s)"
    using free reg by (rule instance_for_function_present)
  then show ?thesis
    by (simp add: unpickle_def opw_reduce_def)
qed

theorem unpickle_same_object_witness:
  "evolves (const_tokenize ''abc'') (new_proc 0) (warm_proc (counting_factory 7)) \<and>
   (0::nat) < length (heap (warm_proc (counting_factory 7))) \<and>
   h_value (heap (warm_proc (counting_factory 7)) ! 0) = Some 7 \<and>
   opw_reduce (heap (warm_proc (counting_factory 7)) ! 0) = (counting_factory 7, ''abc'') \<and>
   unpickle (const_tokenize ''abc'') (counting_factory 7, ''abc'') (warm_proc (counting_factory 7))
     = (Return 0, warm_proc (counting_factory 7))"
proof -
  have "evolves (const_tokenize ''abc'') (new_proc 0) (fresh_proc (counting_factory 7))"
    by (rule evolves_fresh_proc)
  then have e: "evolves (const_tokenize ''abc'') (new_proc 0) (warm_proc (counting_factory 7))"
    unfolding warm_proc_def by (rule evolves.by_get_value) (simp add: fresh_proc_eq)
  have l: "(0::nat) < length (heap (warm_proc (counting_factory 7)))"
    by (simp add: warm_proc_eq)
  show ?thesis
    using e l unpickle_same_object [OF e l] by (simp add: warm_proc_eq opw_reduce_def)
qed

subsection \<open>C4: the registry\<close>

text \<open>
  Claim C4: let \<open>s\<close> be a state the process can be in and \<open>s'\<close> any later state. Then
  no two instances of \<open>s\<close> have the same token; every registry entry of \<open>s\<close> is still there
  in \<open>s'\<close>, for the same instance; a call of \<^verbatim>\<open>instance_for_function\<close> whose token resolves
  to \<open>k\<close> returns an instance and leaves it registered under \<open>k\<close> (with the given factory when
  \<open>k\<close> was absent); and once \<open>k\<close> is registered for instance \<open>a\<close>, every later call that
  resolves to \<open>k\<close>, with whatever factory, returns \<open>a\<close>, changes nothing, and \<open>a\<close> still has
  the factory it was created with.
\<close>

theorem registry_one_handle_per_token:
  assumes "evolves tokenize (new_proc w) s" and "evolves tokenize s s'"
  shows "(\<forall>a<length (heap s). \<forall>b<length (heap s).
            h_token (heap s ! a) = h_token (heap s ! b) \<longrightarrow> a = b) \<and>
         (\<forall>k a. instances s k = Some a \<longrightarrow> instances s' k = Some a) \<and>
         (\<forall>k. token_or_tokenize tokenize f t = Return k \<longrightarrow>
            (\<exists>a. fst (instance_for_function tokenize f t s) = Return a \<and>
                 instances (snd (instance_for_function tokenize f t s)) k = Some a \<and>
                 (instances s k = None \<longrightarrow>
                    h_func (heap (snd (instance_for_function tokenize f t s)) ! a) = f))) \<and>
         (\<forall>k a. instances s k = Some a \<and> token_or_tokenize tokenize f' t' = Return k \<longrightarrow>
            instance_for_function tokenize f' t' s' = (Return a, s') \<and>
            h_func (heap s' ! a) = h_func (heap s ! a))"
proof -
  have ok: "registry_ok tokenize s"
    using assms(1) registry_ok_new_proc by (rule evolves_registry_ok)
  have ok': "registry_ok tokenize s'"
    using assms(2) ok by (rule evolves_registry_ok)
  have ext: "extends s s'"
    using assms(2) by (rule evolves_extends)
  have one: "\<forall>a<length (heap s). \<forall>b<length (heap s).
            h_token (heap s ! a) = h_token (heap s ! b) \<longrightarrow> a = b"
    using ok unfolding registry_ok_def by (metis option.inject)
  have kept: "\<forall>k a. instances s k = Some a \<longrightarrow> instances s' k = Some a"
    using ext by (simp add: extends_def)
  have first: "\<exists>a. fst (instance_for_function tokenize f t s) = Return a \<and>
                 instances (snd (instance_for_function tokenize f t s)) k = Some a \<and>
                 (instances s k = None \<longrightarrow>
                    h_func (heap (snd (instance_for_function tokenize f t s)) ! a) = f)"
    if "token_or_tokenize tokenize f t = Return k" for k
    using that ok
    by (auto simp add: registry_ok_def instance_for_function_def opw_init_def Let_def
          split: option.splits)
  have later: "instance_for_function tokenize f' t' s' = (Return a, s') \<and>
            h_func (heap s' ! a) = h_func (heap s ! a)"
    if "instances s k = Some a" "token_or_tokenize tokenize f' t' = Return k" for k a
  proof -
    have "instances s' k = Some a" using kept that(1) by blast
    moreover have "\<not> instances_lock s'" using ok' by (simp add: registry_ok_def)
    ultimately have "instance_for_function tokenize f' t' s' = (Return a, s')"
      using that(2) by (simp add: instance_for_function_present)
    moreover have "a < length (heap s)"
      using ok that(1) by (auto simp add: registry_ok_def)
    then have "h_func (heap s' ! a) = h_func (heap s ! a)"
      using ext by (simp add: extends_def)
    ultimately show ?thesis by simp
  qed
  show ?thesis
    using one kept first later by blast
qed

theorem registry_one_handle_per_token_witness:
  "evolves (const_tokenize ''abc'') (new_proc 0) (fresh_proc (counting_factory 7)) \<and>
   evolves (const_tokenize ''abc'') (fresh_proc (counting_factory 7))
     (warm_proc (counting_factory 7)) \<and>
   instances (fresh_proc (counting_factory 7)) ''abc'' = Some 0 \<and>
   token_or_tokenize (const_tokenize ''abc'') (counting_factory 8) (Some ''abc'') = Return ''abc'' \<and>
   instance_for_function (const_tokenize ''abc'') (counting_factory 8) (Some ''abc'')
     (warm_proc (counting_factory 7)) = (Return 0, warm_proc (counting_factory 7)) \<and>
   fst (h_func (heap (warm_proc (counting_factory 7)) ! 0) 0) = Return (Some 7) \<and>
   fst (counting_factory 8 0) = Return (Some 8)"
proof -
  have e1: "evolves (const_tokenize ''abc'') (new_proc 0) (fresh_proc (counting_factory 7))"
    by (rule evolves_fresh_proc)
  have e2: "evolves (const_tokenize ''abc'') (fresh_proc (counting_factory 7))
     (warm_proc (counting_factory 7))"
    by (rule evolves_warm_proc)
  have k: "instances (fresh_proc (counting_factory 7)) ''abc'' = Some 0"
    by (simp add: fresh_proc_eq)
  have t: "token_or_tokenize (const_tokenize ''abc'') (counting_factory 8) (Some ''abc'')
     = Return ''abc''"
    by (simp add: token_or_tokenize_def)
  have "instance_for_function (const_tokenize ''abc'') (counting_factory 8) (Some ''abc'')
     (warm_proc (counting_factory 7)) = (Return 0, warm_proc (counting_factory 7))"
    using registry_one_handle_per_token [OF e1 e2, of "counting_factory 8" "Some ''abc''"
        "counting_factory 8" "Some ''abc''"] k t
    by blast
  then show ?thesis
    using e1 e2 k t by (simp add: warm_proc_eq) (simp add: counting_factory_def)
qed

subsection \<open>C5: a factory that raises\<close>

text \<open>
  Claim C5: if the slot is empty, the lock free and the factory raises \<open>e\<close>, then
  \<^verbatim>\<open>_get_value\<close> raises \<open>e\<close>, the lock is free afterwards, the slot is still empty and no
  instance has changed; the factory has been invoked once. The next call invokes the factory
  again, and if the factory then returns an object, that call returns it, stores it in the
  slot and releases the lock.
\<close>

theorem factory_raises_no_poisoning:
  assumes "a < length (heap s)" "h_value (heap s ! a) = None" "\<not> h_lock (heap s ! a)"
    and "h_func (heap s ! a) (world s) = (Raise e, w1)"
  shows "fst (get_value a s) = Raise e \<and>
         \<not> h_lock (heap (snd (get_value a s)) ! a) \<and>
         h_value (heap (snd (get_value a s)) ! a) = None \<and>
         heap (snd (get_value a s)) = heap s \<and>
         invocations a (snd (get_value a s)) = invocations a s + 1 \<and>
         invocations a (snd (get_value a (snd (get_value a s)))) = invocations a s + 2 \<and>
         (h_func (heap s ! a) w1 = (Return (Some v), w2) \<longrightarrow>
            fst (get_value a (snd (get_value a s))) = Return (Some v) \<and>
            h_value (heap (snd (get_value a (snd (get_value a s)))) ! a) = Some v \<and>
            \<not> h_lock (heap (snd (get_value a (snd (get_value a s)))) ! a))"
proof -
  let ?s1 = "s\<lparr>world := w1, calls := calls s @ [a]\<rparr>"
  have first: "get_value a s = (Raise e, ?s1)"
    using assms by (rule get_value_raises)
  have again: "invocations a (snd (get_value a ?s1)) = invocations a s + 2"
    using assms(1-3)
    by (cases "h_func (heap s ! a) w1")
       (simp add: get_value_def call_func_def assert_and_return_def invocations_def
          set_lock_def set_value_def split: outcome.splits option.splits)
  have second: "get_value a ?s1 =
      (Return (Some v), ?s1\<lparr>heap := (heap ?s1)[a := (heap ?s1 ! a)\<lparr>h_value := Some v\<rparr>],
                           world := w2, calls := calls ?s1 @ [a]\<rparr>)"
    if "h_func (heap s ! a) w1 = (Return (Some v), w2)"
    using assms(1-3) that by (intro get_value_returns) simp_all
  show ?thesis
    using assms(1-3) again second by (auto simp add: first invocations_def)
qed

theorem factory_raises_no_poisoning_witness:
  "(0::nat) < length (heap (fresh_proc flaky_factory)) \<and>
   h_value (heap (fresh_proc flaky_factory) ! 0) = None \<and>
   \<not> h_lock (heap (fresh_proc flaky_factory) ! 0) \<and>
   h_func (heap (fresh_proc flaky_factory) ! 0) (world (fresh_proc flaky_factory))
     = (Raise (UserError ''boom''), 1) \<and>
   h_func (heap (fresh_proc flaky_factory) ! 0) 1 = (Return (Some 7), 2) \<and>
   fst (get_value 0 (fresh_proc flaky_factory)) = Raise (UserError ''boom'') \<and>
   h_value (heap (snd (get_value 0 (fresh_proc flaky_factory))) ! 0) = None \<and>
   fst (get_value 0 (snd (get_value 0 (fresh_proc flaky_factory)))) = Return (Some 7) \<and>
   h_value (heap (snd (get_value 0 (snd (get_value 0 (fresh_proc flaky_factory))))) ! 0) = Some 7"
  using factory_raises_no_poisoning [of 0 "fresh_proc flaky_factory" "UserError ''boom''" 1 7 2]
  by (simp add: fresh_proc_eq flaky_factory_def)

subsection \<open>C6: the reserved names\<close>

text \<open>
  Claim C6: for each of the three reserved names, \<^verbatim>\<open>__getattr__\<close> raises
  \<^verbatim>\<open>AttributeError\<close> for that name and leaves the whole state as it was, whatever the state:
  no factory is invoked, and an empty value slot stays empty.
\<close>

theorem reserved_name_raises:
  assumes "attr = ''__dask_graph__'' \<or> attr = ''__name__'' \<or> attr = ''__dask_tokenize__''"
  shows "opw_getattr py_getattr a attr s = (Raise (AttributeError attr), s) \<and>
         invocations b (snd (opw_getattr py_getattr a attr s)) = invocations b s"
  using assms by (auto simp add: opw_getattr_def reserved_def)

theorem reserved_name_raises_witness:
  "opw_getattr no_attrs 0 ''__name__'' (fresh_proc (counting_factory 7))
     = (Raise (AttributeError ''__name__''), fresh_proc (counting_factory 7)) \<and>
   h_value (heap (fresh_proc (counting_factory 7)) ! 0) = None \<and>
   invocations 0 (snd (opw_getattr no_attrs 0 ''__name__'' (fresh_proc (counting_factory 7)))) = 0"
  using reserved_name_raises [of "''__name__''" no_attrs 0 "fresh_proc (counting_factory 7)" 0]
  by (simp add: fresh_proc_eq invocations_def)

subsection \<open>C7: which token is the registry key\<close>

text \<open>
  Claim C7 says that every explicit token, the empty string included, is the registry key
  as it is. The empty string is falsy, so \<^verbatim>\<open>token or tokenize(func)\<close> yields the hash of the
  factory for it: with a hash \<^verbatim>\<open>abc\<close>, the call with the explicit token \<^verbatim>\<open>''\<close> registers the
  instance under \<^verbatim>\<open>abc\<close> and nothing under \<^verbatim>\<open>''\<close>.
\<close>

theorem empty_token_not_verbatim:
  "token_or_tokenize (const_tokenize ''abc'') (counting_factory 7) (Some '''') = Return ''abc'' \<and>
   fst (instance_for_function (const_tokenize ''abc'') (counting_factory 7) (Some '''') (new_proc 0))
     = Return 0 \<and>
   instances (snd (instance_for_function (const_tokenize ''abc'') (counting_factory 7) (Some '''')
      (new_proc 0))) '''' = None \<and>
   instances (snd (instance_for_function (const_tokenize ''abc'') (counting_factory 7) (Some '''')
      (new_proc 0))) ''abc'' = Some 0"
  by (simp add: instance_for_function_def token_or_tokenize_def new_proc_def opw_init_def
        const_tokenize_def)

text \<open>
  Claim C7, amended: an explicit token that is not the empty string is used as it is: it is
  the resolved token, the result does not depend on \<open>tokenize\<close>, and with the registry lock
  free the call returns an instance registered under that token and changes no other entry.
  Without an explicit token, and with the empty string as explicit token, the resolved token
  is what \<open>tokenize\<close> gives for the factory, and that is the key.
\<close>

theorem explicit_token_verbatim:
  "(t \<noteq> [] \<longrightarrow>
      token_or_tokenize tokenize func (Some t) = Return t \<and>
      instance_for_function tokenize func (Some t) s
        = instance_for_function tokenize' func (Some t) s) \<and>
   (t \<noteq> [] \<and> \<not> instances_lock s \<longrightarrow>
      (\<exists>a. fst (instance_for_function tokenize func (Some t) s) = Return a \<and>
           instances (snd (instance_for_function tokenize func (Some t) s)) t = Some a \<and>
           (\<forall>k. k \<noteq> t \<longrightarrow>
              instances (snd (instance_for_function tokenize func (Some t) s)) k = instances s k))) \<and>
   token_or_tokenize tokenize func None = tokenize func \<and>
   token_or_tokenize tokenize func (Some []) = tokenize func \<and>
   ((token = None \<or> token = Some []) \<and> tokenize func = Return k \<and> \<not> instances_lock s \<longrightarrow>
      (\<exists>a. fst (instance_for_function tokenize func token s) = Return a \<and>
           instances (snd (instance_for_function tokenize func token s)) k = Some a))"
proof -
  have verb: "token_or_tokenize tokenize func (Some t) = Return t" if "t \<noteq> []"
    using that by (simp add: token_or_tokenize_def)
  have indep: "instance_for_function tokenize func (Some t) s
        = instance_for_function tokenize' func (Some t) s" if "t \<noteq> []"
    using that by (simp add: instance_for_function_def token_or_tokenize_def)
  have hashed: "token_or_tokenize tokenize func token = tokenize func"
    if "token = None \<or> token = Some []"
    using that by (auto simp add: token_or_tokenize_def)
  have key: "\<exists>a. fst (instance_for_function tokenize func token s) = Return a \<and>
           instances (snd (instance_for_function tokenize func token s)) k = Some a"
    if "token = None \<or> token = Some []" "tokenize func = Return k" "\<not> instances_lock s"
    using instance_for_function_key [of tokenize func token k s] hashed that by auto
  have key': "\<exists>a. fst (instance_for_function tokenize func (Some t) s) = Return a \<and>
           instances (snd (instance_for_function tokenize func (Some t) s)) t = Some a \<and>
           (\<forall>k. k \<noteq> t \<longrightarrow>
              instances (snd (instance_for_function tokenize func (Some t) s)) k = instances s k)"
    if "t \<noteq> []" "\<not> instances_lock s"
    using verb [OF that(1)] that(2) by (rule instance_for_function_key)
  have none: "token_or_tokenize tokenize func None = tokenize func"
    and empty: "token_or_tokenize tokenize func (Some []) = tokenize func"
    by (simp_all add: token_or_tokenize_def)
  show ?thesis
    using verb indep key key' none empty by blast
qed

theorem explicit_token_verbatim_witness:
  "''tok'' \<noteq> [] \<and> \<not> instances_lock (new_proc (0::nat) :: (nat, nat) proc) \<and>
   fst (instance_for_function (const_tokenize ''abc'') (counting_factory 7) (Some ''tok'') (new_proc 0))
     = Return 0 \<and>
   instances (snd (instance_for_function (const_tokenize ''abc'') (counting_factory 7) (Some ''tok'')
      (new_proc 0))) ''tok'' = Some 0 \<and>
   instances (snd (instance_for_function (const_tokenize ''abc'') (counting_factory 7) (Some ''tok'')
      (new_proc 0))) ''abc'' = None \<and>
   const_tokenize ''abc'' (counting_factory 7) = Return ''abc'' \<and>
   instances (snd (instance_for_function (const_tokenize ''abc'') (counting_factory 7) None
      (new_proc 0))) ''abc'' = Some 0"
  using explicit_token_verbatim [of "''tok''" "const_tokenize ''abc''" "counting_factory 7"
      "new_proc 0" "const_tokenize ''xyz''" None "''abc''"]
  by (simp add: instance_for_function_def token_or_tokenize_def new_proc_def opw_init_def
        const_tokenize_def)

subsection \<open>C8: \<^verbatim>\<open>__dir__\<close>\<close>

text \<open>
  Claim C8 says that \<^verbatim>\<open>__dir__\<close> gives nothing while the slot is empty. It gives
  \<^verbatim>\<open>dir(None)\<close>, the attribute names of \<^verbatim>\<open>NoneType\<close>, which is not empty.
\<close>

theorem dir_unpopulated_not_empty:
  "h_value (heap (fresh_proc (counting_factory 7)) ! 0) = None \<and>
   fst (opw_dir two_attrs 0 (fresh_proc (counting_factory 7))) \<noteq> Return [] \<and>
   fst (opw_dir two_attrs 0 (fresh_proc (counting_factory 7))) = Return NoneType_dir \<and>
   ''__class__'' \<in> set NoneType_dir"
  by (simp add: fresh_proc_eq opw_dir_def py_dir_def NoneType_dir_def)

text \<open>
  Claim C8, amended: \<^verbatim>\<open>__dir__\<close> lists the attributes of whatever the value slot holds and
  changes nothing: those of the value when the slot is populated, and those of \<^verbatim>\<open>None\<close>
  (the names of \<^verbatim>\<open>NoneType\<close>, not an empty list) when it is not.
\<close>

theorem dir_of_raw_slot:
  "(h_value (heap s ! a) = Some v \<longrightarrow> opw_dir dir_of a s = (Return (dir_of v), s)) \<and>
   (h_value (heap s ! a) = None \<longrightarrow> opw_dir dir_of a s = (Return NoneType_dir, s)) \<and>
   NoneType_dir \<noteq> []"
  by (simp add: opw_dir_def py_dir_def NoneType_dir_def)

theorem dir_of_raw_slot_witness:
  "h_value (heap (warm_proc (counting_factory 7)) ! 0) = Some 7 \<and>
   fst (opw_dir two_attrs 0 (warm_proc (counting_factory 7))) = Return [''predict'', ''weights''] \<and>
   h_value (heap (fresh_proc (counting_factory 7)) ! 0) = None \<and>
   fst (opw_dir two_attrs 0 (fresh_proc (counting_factory 7))) = Return NoneType_dir"
  using dir_of_raw_slot [of "warm_proc (counting_factory 7)" 0 7 two_attrs]
    dir_of_raw_slot [of "fresh_proc (counting_factory 7)" 0 7 two_attrs]
  by (simp add: fresh_proc_eq warm_proc_eq two_attrs_def)

subsection \<open>C9: creating an instance\<close>

text \<open>
  Claim C9: \<^verbatim>\<open>instance_for_function\<close> invokes no factory and leaves the world alone; the
  registry lock is afterwards as it was before (so it is not held when a factory runs
  later); the instances are the same as before, or the same followed by one new instance,
  the one returned, with the given factory, an empty value slot and a free lock. The same
  holds for \<^verbatim>\<open>__init__\<close> alone, which always adds that instance.
\<close>

theorem creation_never_invokes:
  "calls (snd (instance_for_function tokenize func token s)) = calls s \<and>
   world (snd (instance_for_function tokenize func token s)) = world s \<and>
   instances_lock (snd (instance_for_function tokenize func token s)) = instances_lock s \<and>
   (heap (snd (instance_for_function tokenize func token s)) = heap s \<or>
    (\<exists>t. fst (instance_for_function tokenize func token s) = Return (length (heap s)) \<and>
         heap (snd (instance_for_function tokenize func token s)) =
           heap s @ [\<lparr>h_func = func, h_token = t, h_lock = False, h_value = None\<rparr>])) \<and>
   fst (opw_init func tok s) = length (heap s) \<and>
   calls (snd (opw_init func tok s)) = calls s \<and>
   world (snd (opw_init func tok s)) = world s \<and>
   heap (snd (opw_init func tok s)) =
     heap s @ [\<lparr>h_func = func, h_token = tok, h_lock = False, h_value = None\<rparr>]"
  by (auto simp add: instance_for_function_def opw_init_def Let_def
        split: outcome.splits option.splits)

theorem creation_never_invokes_witness:
  "calls (snd (instance_for_function (const_tokenize ''abc'') (counting_factory 7) None
      (new_proc 0))) = [] \<and>
   world (snd (instance_for_function (const_tokenize ''abc'') (counting_factory 7) None
      (new_proc 0))) = 0 \<and>
   h_value (heap (snd (instance_for_function (const_tokenize ''abc'') (counting_factory 7) None
      (new_proc 0))) ! 0) = None"
  using creation_never_invokes [of "const_tokenize ''abc''" "counting_factory 7" None
      "new_proc 0" "''abc''"]
  by (simp add: instance_for_function_def token_or_tokenize_def new_proc_def opw_init_def
        const_tokenize_def)

subsection \<open>C10: \<^verbatim>\<open>__repr__\<close>\<close>

text \<open>
  Claim C10: \<^verbatim>\<open>__repr__\<close> leaves the whole state as it was: no factory is invoked and the
  value slot is unchanged. It reads the slot as it is: for an instance whose slot is empty
  the string ends in \<^verbatim>\<open>of None>\<close>.
\<close>

theorem repr_reads_raw_slot:
  "snd (opw_repr repr_of a s) = s \<and>
   invocations b (snd (opw_repr repr_of a s)) = invocations b s \<and>
   h_value (heap (snd (opw_repr repr_of a s)) ! a) = h_value (heap s ! a) \<and>
   (h_value (heap s ! a) = None \<longrightarrow>
      fst (opw_repr repr_of a s) = Return (''<OncePerWorker at '' @ py_hex a @ '' of None>''))"
  by (simp add: opw_repr_def py_repr_def)

theorem repr_reads_raw_slot_witness:
  "h_value (heap (fresh_proc (counting_factory 7)) ! 0) = None \<and>
   fst (opw_repr show_nat 0 (fresh_proc (counting_factory 7)))
     = Return ''<OncePerWorker at 0x0 of None>'' \<and>
   invocations 0 (snd (opw_repr show_nat 0 (fresh_proc (counting_factory 7)))) = 0 \<and>
   h_value (heap (snd (opw_repr show_nat 0 (fresh_proc (counting_factory 7)))) ! 0) = None"
  using repr_reads_raw_slot [of show_nat 0 "fresh_proc (counting_factory 7)" 0]
  by (simp add: fresh_proc_eq py_hex_def hex_digit_def invocations_def)

end
